theory Spec2Isabelle
  imports Complex_Main "HOL-Library.Word"
begin

section \<open>Number partitioning with QAOA and VQE: the classical core\<close>

text \<open>
  The two notebooks share one problem: split a list \<open>numbers\<close> into two subsets whose sums
  are as close as possible. A measured bit string assigns a spin to every number
  (\<open>0\<close> gives \<open>+1\<close>, \<open>1\<close> gives \<open>-1\<close>) and the cost of the assignment is the square of the
  signed sum.

  The notebooks set \<open>numbers = np.random.randint(-10, 100, 6)\<close>, an array of \<open>np.int64\<close>. Sums
  and products of its entries are \<open>np.int64\<close> again and wrap around silently, so a number
  is a 64-bit word, \<open>+\<close>, \<open>-\<close> and \<open>*\<close> on numbers are the wrapping operations, and \<open>sint\<close>
  reads the signed value. Python integers (spins, counts, indices) are unbounded.
  Floating-point results (\<open>np.mean\<close>, the simulator's amplitudes) are modelled in exact real
  and complex arithmetic.
\<close>

type_synonym int64 = "64 word"

datatype py_error = ZeroDivisionError | IndexError | ValueError | KeyError

subsection \<open>Problem encoder (QAOA notebook, cell \<open>Build Cost Hamiltonian\<close>)\<close>

text \<open>\<^verbatim>\<open>constant_term = sum(a*a for a in numbers)\<close>\<close>

definition constant_term :: "int64 list \<Rightarrow> int64" where
  "constant_term numbers = sum_list (map (\<lambda>a. a * a) numbers)"

text \<open>
  \<^verbatim>\<open>for i in range(n_qubits):
    for j in range(i+1, n_qubits):
        weight = 2 * numbers[i] * numbers[j]
        cost_terms.append(cirq.ZZ(qubits[i], qubits[j]) ** weight)\<close>
  An entry \<open>(i, j, weight)\<close> stands for the gate \<open>cirq.ZZ(qubits[i], qubits[j]) ** weight\<close>;
  \<open>n_qubits\<close> is \<open>len(numbers)\<close>.
\<close>

definition cost_terms :: "int64 list \<Rightarrow> (nat \<times> nat \<times> int64) list" where
  "cost_terms numbers =
     [(i, j, 2 * numbers ! i * numbers ! j).
        i \<leftarrow> [0..<length numbers], j \<leftarrow> [i + 1..<length numbers]]"

record hamiltonian_spec =
  h_constant :: int64
  h_pairwise :: "(nat \<times> nat \<times> int64) list"

text \<open>
  The encoder cell as a whole: it has no \<open>raise\<close> and no check on \<open>len(numbers)\<close>, and every
  index it reads is in range, so it always completes.
\<close>

definition problem_encoder :: "int64 list \<Rightarrow> py_error + hamiltonian_spec" where
  "problem_encoder numbers =
     Inr \<lparr>h_constant = constant_term numbers, h_pairwise = cost_terms numbers\<rparr>"

subsection \<open>Decoder (both notebooks, final cell)\<close>

text \<open>\<^verbatim>\<open>return [1 if bit == 0 else -1 for bit in bits]\<close>\<close>

definition bitstring_to_partition :: "nat list \<Rightarrow> int list" where
  "bitstring_to_partition bits = map (\<lambda>bit. if bit = 0 then 1 else - 1) bits"

text \<open>
  \<^verbatim>\<open>S = sum(a * spin for a, spin in zip(numbers, spin_assignment))
return S * S\<close>
  A spin is a Python integer (\<open>1\<close> or \<open>-1\<close>); its product with an \<open>np.int64\<close> is an \<open>np.int64\<close>.
\<close>

definition compute_cost :: "int64 list \<Rightarrow> int list \<Rightarrow> int64" where
  "compute_cost numbers spin_assignment =
     (let S = sum_list (map (\<lambda>(a, spin). a * word_of_int spin) (zip numbers spin_assignment))
      in S * S)"

text \<open>
  The dictionary \<open>partition_costs\<close> (named \<open>partition_counts\<close> in the VQE notebook) maps a
  partition, as a tuple, to \<open>{'cost': cost, 'count': n}\<close>. Python dictionaries keep the
  order in which keys were first inserted, and \<open>optimal_partitions\<close> is read off in that
  order, so the dictionary is an association list with distinct keys.
\<close>

record partition_info =
  cost :: int64
  count :: nat

type_synonym partition_dict = "(int list \<times> partition_info) list"

text \<open>
  One iteration of
  \<^verbatim>\<open>for bits in bitstring_list:
    partition = tuple(bitstring_to_partition(bits))
    cost = compute_cost(partition)
    if partition in partition_costs:
        partition_costs[partition]['count'] += 1
    else:
        partition_costs[partition] = {'cost': cost, 'count': 1}\<close>
\<close>

definition increment_count :: "int list \<Rightarrow> partition_dict \<Rightarrow> partition_dict" where
  "increment_count p d =
     map (\<lambda>(k, info). if k = p then (k, info\<lparr>count := count info + 1\<rparr>) else (k, info)) d"

definition record_shot :: "int64 list \<Rightarrow> partition_dict \<Rightarrow> nat list \<Rightarrow> partition_dict" where
  "record_shot numbers d bits =
     (let p = bitstring_to_partition bits;
          c = compute_cost numbers p
      in if p \<in> set (map fst d)
         then increment_count p d
         else d @ [(p, \<lparr>cost = c, count = 1\<rparr>)])"

definition partition_costs :: "int64 list \<Rightarrow> nat list list \<Rightarrow> partition_dict" where
  "partition_costs numbers bitstring_list = foldl (record_shot numbers) [] bitstring_list"

text \<open>
  Two notions for stating what the aggregation loop has computed after the shots \<open>seen\<close>:
  how many of them map to a partition, and the dictionary the loop should hold.
\<close>

definition shots_of :: "nat list list \<Rightarrow> int list \<Rightarrow> nat" where
  "shots_of ms p = length (filter (\<lambda>bits. bitstring_to_partition bits = p) ms)"

definition dict_of :: "int64 list \<Rightarrow> nat list list \<Rightarrow> int list \<Rightarrow> partition_info option" where
  "dict_of numbers seen p =
     (if p \<in> bitstring_to_partition ` set seen
      then Some \<lparr>cost = compute_cost numbers p, count = shots_of seen p\<rparr> else None)"

text \<open>
  \<^verbatim>\<open>min_cost = min(info['cost'] for info in partition_costs.values())\<close>:
  \<open>min\<close> of an empty sequence raises \<open>ValueError\<close>; otherwise it keeps the first item and
  replaces it by each later item that compares smaller, and \<open>np.int64\<close> values compare as
  signed integers.
\<close>

definition py_min :: "int64 \<Rightarrow> int64 list \<Rightarrow> int64" where
  "py_min c cs = foldl (\<lambda>m x. if sint x < sint m then x else m) c cs"

definition min_cost :: "partition_dict \<Rightarrow> py_error + int64" where
  "min_cost d =
     (case map (\<lambda>e. cost (snd e)) d of
        [] \<Rightarrow> Inl ValueError
      | c # cs \<Rightarrow> Inr (py_min c cs))"

text \<open>\<^verbatim>\<open>optimal_partitions = [p for p, info in partition_costs.items() if info['cost'] == min_cost]\<close>\<close>

definition optimal_partitions :: "partition_dict \<Rightarrow> int64 \<Rightarrow> int list list" where
  "optimal_partitions d m = map fst (filter (\<lambda>(p, info). cost info = m) d)"

text \<open>
  \<^verbatim>\<open>sub_a = [numbers[i] for i in range(n_qubits) if partition[i] == 1]
sub_b = [numbers[i] for i in range(n_qubits) if partition[i] == -1]\<close>
  with \<open>n_qubits = len(numbers)\<close>; \<open>partition[i]\<close> raises \<open>IndexError\<close> when the tuple is
  shorter than \<open>n_qubits\<close>.
\<close>

definition sub_a :: "int64 list \<Rightarrow> int list \<Rightarrow> py_error + int64 list" where
  "sub_a numbers p =
     (if length p < length numbers then Inl IndexError
      else Inr (map (\<lambda>i. numbers ! i) (filter (\<lambda>i. p ! i = 1) [0..<length numbers])))"

definition sub_b :: "int64 list \<Rightarrow> int list \<Rightarrow> py_error + int64 list" where
  "sub_b numbers p =
     (if length p < length numbers then Inl IndexError
      else Inr (map (\<lambda>i. numbers ! i) (filter (\<lambda>i. p ! i = - 1) [0..<length numbers])))"

text \<open>
  A row of the report, under the headers \<open>Partition\<close>, \<open>First Partition\<close>,
  \<open>Second Partition\<close>, \<open>Sum Difference\<close>, \<open>Frequency\<close>:
  \<^verbatim>\<open>table_data.append([partition, sub_a, sub_b, sum(sub_a) - sum(sub_b),
                   partition_costs[partition]['count']])\<close>
\<close>

record table_row =
  row_partition :: "int list"
  first_partition :: "int64 list"
  second_partition :: "int64 list"
  sum_difference :: int64
  frequency :: nat

definition make_row :: "int64 list \<Rightarrow> partition_dict \<Rightarrow> int list \<Rightarrow> py_error + table_row" where
  "make_row numbers d p =
     (case sub_a numbers p of
        Inl e \<Rightarrow> Inl e
      | Inr a \<Rightarrow>
          (case sub_b numbers p of
             Inl e \<Rightarrow> Inl e
           | Inr b \<Rightarrow>
               (case map_of d p of
                  None \<Rightarrow> Inl KeyError
                | Some info \<Rightarrow>
                    Inr \<lparr>row_partition = p, first_partition = a, second_partition = b,
                         sum_difference = sum_list a - sum_list b,
                         frequency = count info\<rparr>)))"

fun table_data ::
  "int64 list \<Rightarrow> partition_dict \<Rightarrow> int list list \<Rightarrow> py_error + table_row list" where
  "table_data numbers d [] = Inr []"
| "table_data numbers d (p # ps) =
     (case make_row numbers d p of
        Inl e \<Rightarrow> Inl e
      | Inr r \<Rightarrow>
          (case table_data numbers d ps of
             Inl e \<Rightarrow> Inl e
           | Inr rs \<Rightarrow> Inr (r # rs)))"

text \<open>The final cell from the measurements on: aggregate, find the minimum, build the table.\<close>

definition decoder :: "int64 list \<Rightarrow> nat list list \<Rightarrow> py_error + table_row list" where
  "decoder numbers measurements =
     (let d = partition_costs numbers measurements
      in case min_cost d of
           Inl e \<Rightarrow> Inl e
         | Inr m \<Rightarrow> table_data numbers d (optimal_partitions d m))"

text \<open>The row the report holds for a partition \<open>p\<close> observed in the batch \<open>ms\<close>.\<close>

definition row_of :: "int64 list \<Rightarrow> nat list list \<Rightarrow> int list \<Rightarrow> table_row" where
  "row_of numbers ms p =
     \<lparr>row_partition = p,
      first_partition = map (\<lambda>i. numbers ! i) (filter (\<lambda>i. p ! i = 1) [0..<length numbers]),
      second_partition = map (\<lambda>i. numbers ! i) (filter (\<lambda>i. p ! i = - 1) [0..<length numbers]),
      sum_difference =
        sum_list (map (\<lambda>i. numbers ! i) (filter (\<lambda>i. p ! i = 1) [0..<length numbers])) -
        sum_list (map (\<lambda>i. numbers ! i) (filter (\<lambda>i. p ! i = - 1) [0..<length numbers])),
      frequency = shots_of ms p\<rparr>"

text \<open>
  The quantities the specification speaks of, in exact integer arithmetic on the signed
  values of the numbers: the sum of the squares, and the signed sum \<open>\<Sum> a\<^sub>i s\<^sub>i\<close> of a spin
  assignment. The program's values are compared with these.
\<close>

definition exact_sum_of_squares :: "int64 list \<Rightarrow> int" where
  "exact_sum_of_squares numbers = sum_list (map (\<lambda>a. sint a * sint a) numbers)"

definition exact_signed_sum :: "int64 list \<Rightarrow> int list \<Rightarrow> int" where
  "exact_signed_sum numbers p = sum_list (map (\<lambda>(a, spin). sint a * spin) (zip numbers p))"


subsection \<open>Sampled energy (QAOA notebook, \<open>energy_from_measurements\<close> and \<open>objective\<close>)\<close>

text \<open>
  \<^verbatim>\<open>return np.mean([(sum(numbers[i]*(-1)**b for i, b in enumerate(bs)))**2
                for bs in measurements])\<close>
  The cost of one shot: \<open>numbers[i]\<close> raises \<open>IndexError\<close> when the bit string is longer
  than \<open>numbers\<close>. The sign \<open>(-1)**b\<close> times an \<open>np.int64\<close>, the sum and the square are
  \<open>np.int64\<close>.
\<close>

definition shot_cost :: "int64 list \<Rightarrow> nat list \<Rightarrow> py_error + int64" where
  "shot_cost numbers bs =
     (if length numbers < length bs then Inl IndexError
      else Inr ((sum_list (map (\<lambda>(i, b). numbers ! i * (- 1) ^ b) (enumerate 0 bs)))\<^sup>2))"

fun shot_costs :: "int64 list \<Rightarrow> nat list list \<Rightarrow> py_error + int64 list" where
  "shot_costs numbers [] = Inr []"
| "shot_costs numbers (bs # measurements) =
     (case shot_cost numbers bs of
        Inl e \<Rightarrow> Inl e
      | Inr c \<Rightarrow>
          (case shot_costs numbers measurements of
             Inl e \<Rightarrow> Inl e
           | Inr cs \<Rightarrow> Inr (c # cs)))"

text \<open>
  The value of \<open>np.mean\<close>, in exact arithmetic: it adds the entries up as floating-point
  numbers (so this sum does not wrap) and divides by their number; the mean of an empty
  list is \<open>nan\<close> (with a warning, not an exception).
\<close>

datatype np_float = Finite real | NaN

definition np_mean :: "int64 list \<Rightarrow> np_float" where
  "np_mean cs =
     (if cs = [] then NaN
      else Finite (sum_list (map (\<lambda>c. real_of_int (sint c)) cs) / real (length cs)))"

definition energy_from_measurements :: "int64 list \<Rightarrow> nat list list \<Rightarrow> py_error + np_float" where
  "energy_from_measurements numbers measurements =
     (case shot_costs numbers measurements of
        Inl e \<Rightarrow> Inl e
      | Inr cs \<Rightarrow> Inr (np_mean cs))"

text \<open>
  \<^verbatim>\<open>def objective(params):
    resolved = cirq.ParamResolver({'gamma': params[0], 'beta': params[1]})
    result = simulator.run(circuit, resolved, repetitions=500)
    return energy_from_measurements(result.measurements['result'])\<close>
  The sampler \<open>simulator.run\<close> is outside the notebook: it is the parameter \<open>run\<close>, which
  gives the batch drawn for the two angles and the number of repetitions.
\<close>

definition objective ::
  "(real \<Rightarrow> real \<Rightarrow> nat \<Rightarrow> nat list list) \<Rightarrow> int64 list \<Rightarrow> real list \<Rightarrow> py_error + np_float"
  where
  "objective run numbers params =
     (if length params < 2 then Inl IndexError
      else energy_from_measurements numbers (run (params ! 0) (params ! 1) 500))"

subsection \<open>Ansatz builder (VQE notebook, \<open>create_ansatz\<close>)\<close>

text \<open>
  A circuit is the list of the operations in the order in which \<open>circuit.append\<close> receives
  them; the qubit \<open>qubits[i]\<close> is written \<open>i\<close>. \<open>Rx \<theta> i\<close> is \<open>cirq.rx(\<theta>)(qubits[i])\<close> and
  \<open>ZZPow t i j\<close> is \<open>cirq.ZZPowGate(exponent=t)(qubits[i], qubits[j])\<close>.
\<close>

datatype gate = H nat | Rx real nat | ZZPow real nat nat

type_synonym circuit = "gate list"

text \<open>The index pairs visited by \<^verbatim>\<open>for i in range(n): for j in range(i+1, n)\<close>, in order.\<close>

definition qubit_pairs :: "nat \<Rightarrow> (nat \<times> nat) list" where
  "qubit_pairs n = [(i, j). i \<leftarrow> [0..<n], j \<leftarrow> [i + 1..<n]]"

text \<open>
  \<^verbatim>\<open>for i in range(n_qubits):
    circuit.append(cirq.rx(params[param_idx])(qubits[i]))
    param_idx += 1\<close>
  The loop state is the circuit and \<open>param_idx\<close>. The read \<open>params[param_idx]\<close> is not guarded:
  past the end of \<open>params\<close> it raises \<open>IndexError\<close>.
\<close>

fun rx_loop :: "real list \<Rightarrow> nat list \<Rightarrow> circuit \<times> nat \<Rightarrow> py_error + circuit \<times> nat" where
  "rx_loop params [] st = Inr st"
| "rx_loop params (i # is) (c, param_idx) =
     (if param_idx < length params
      then rx_loop params is (c @ [Rx (params ! param_idx) i], param_idx + 1)
      else Inl IndexError)"

text \<open>
  \<^verbatim>\<open>for i in range(n_qubits):
    for j in range(i+1, n_qubits):
        if param_idx < len(params):  # Check to avoid index out of range
            circuit.append(cirq.ZZPowGate(exponent=params[param_idx]/np.pi)(qubits[i], qubits[j]))
            param_idx += 1\<close>
  Where the guard is false the pair is skipped and the loop goes on.
\<close>

fun zz_loop :: "real list \<Rightarrow> (nat \<times> nat) list \<Rightarrow> circuit \<times> nat \<Rightarrow> circuit \<times> nat" where
  "zz_loop params [] st = st"
| "zz_loop params ((i, j) # ps) (c, param_idx) =
     (if param_idx < length params
      then zz_loop params ps (c @ [ZZPow (params ! param_idx / pi) i j], param_idx + 1)
      else zz_loop params ps (c, param_idx))"

text \<open>
  The number of pairs at which the guard of the loop above is false, when the loop is
  entered with the given \<open>param_idx\<close>: the same recursion, counting instead of building.
\<close>

fun skipped_pairs :: "real list \<Rightarrow> (nat \<times> nat) list \<Rightarrow> nat \<Rightarrow> nat" where
  "skipped_pairs params [] param_idx = 0"
| "skipped_pairs params ((i, j) # ps) param_idx =
     (if param_idx < length params
      then skipped_pairs params ps (param_idx + 1)
      else 1 + skipped_pairs params ps param_idx)"

text \<open>\<^verbatim>\<open>for _ in range(n_layers):\<close> with the two loops above as its body.\<close>

fun layer_loop :: "nat \<Rightarrow> real list \<Rightarrow> nat \<Rightarrow> circuit \<times> nat \<Rightarrow> py_error + circuit \<times> nat" where
  "layer_loop n params 0 st = Inr st"
| "layer_loop n params (Suc k) st =
     (case rx_loop params [0..<n] st of
        Inl e \<Rightarrow> Inl e
      | Inr st' \<Rightarrow> layer_loop n params k (zz_loop params (qubit_pairs n) st'))"

text \<open>
  \<^verbatim>\<open>circuit.append(cirq.H.on_each(qubits))
n_layers = len(params) // (n_qubits + n_qubits*(n_qubits-1)//2)
param_idx = 0\<close>
  followed by the layer loop. The floor division raises \<open>ZeroDivisionError\<close> when the
  divisor is \<open>0\<close>, which is the case exactly for \<open>n_qubits = 0\<close>.
\<close>

definition params_per_layer :: "nat \<Rightarrow> nat" where
  "params_per_layer n_qubits = n_qubits + n_qubits * (n_qubits - 1) div 2"

definition create_ansatz :: "nat \<Rightarrow> real list \<Rightarrow> py_error + circuit" where
  "create_ansatz n_qubits params =
     (if params_per_layer n_qubits = 0 then Inl ZeroDivisionError
      else
        (let n_layers = length params div params_per_layer n_qubits
         in case layer_loop n_qubits params n_layers (map H [0..<n_qubits], 0) of
              Inl e \<Rightarrow> Inl e
            | Inr (c, param_idx) \<Rightarrow> Inr c))"

text \<open>
  The gates of one complete layer whose first parameter is \<open>params[base]\<close>: the rotation of
  qubit \<open>i\<close> takes \<open>params[base + i]\<close>, the entangling gate of the \<open>k\<close>-th pair takes
  \<open>params[base + n + k]\<close>.
\<close>

definition layer_gates :: "nat \<Rightarrow> real list \<Rightarrow> nat \<Rightarrow> circuit" where
  "layer_gates n params base =
     map (\<lambda>i. Rx (params ! (base + i)) i) [0..<n] @
     map (\<lambda>(k, (i, j)). ZZPow (params ! (base + n + k) / pi) i j) (enumerate 0 (qubit_pairs n))"

subsection \<open>Exact energy (VQE notebook, \<open>expectation_value\<close>)\<close>

text \<open>
  \<open>simulator.simulate(circuit).final_state_vector\<close> and \<open>expectation_from_state_vector\<close>
  belong to the simulator library. They are modelled by what the library documents: the
  state vector holds one complex amplitude for every string of \<open>n\<close> bits (the bit of
  \<open>qubits[0]\<close> first), the simulation starts from the all-zero basis state and multiplies by
  the matrix of each operation in turn, and the expectation is \<open>\<langle>\<psi>|Z\<^sub>i Z\<^sub>j|\<psi>\<rangle>\<close>. Amplitudes
  are exact complex numbers here; the library computes them in floating point.
\<close>

type_synonym state_vector = "bool list \<Rightarrow> complex"

definition initial_state :: "nat \<Rightarrow> state_vector" where
  "initial_state n = (\<lambda>bs. if bs = replicate n False then 1 else 0)"

text \<open>
  The matrices: \<open>H = [[1, 1], [1, -1]] / sqrt 2\<close>,
  \<open>rx(\<theta>) = [[cos(\<theta>/2), -i sin(\<theta>/2)], [-i sin(\<theta>/2), cos(\<theta>/2)]]\<close> and
  \<open>ZZPowGate(exponent=t) = diag(1, e\<^sup>i\<^sup>\<pi>\<^sup>t, e\<^sup>i\<^sup>\<pi>\<^sup>t, 1)\<close>.
\<close>

fun apply_gate :: "gate \<Rightarrow> state_vector \<Rightarrow> state_vector" where
  "apply_gate (H q) \<psi> =
     (\<lambda>bs. (\<psi> (bs[q := False]) + (if bs ! q then - 1 else 1) * \<psi> (bs[q := True]))
             / complex_of_real (sqrt 2))"
| "apply_gate (Rx \<theta> q) \<psi> =
     (\<lambda>bs. complex_of_real (cos (\<theta> / 2)) * \<psi> bs
             - \<i> * complex_of_real (sin (\<theta> / 2)) * \<psi> (bs[q := \<not> bs ! q]))"
| "apply_gate (ZZPow t i j) \<psi> =
     (\<lambda>bs. (if bs ! i \<noteq> bs ! j then cis (pi * t) else 1) * \<psi> bs)"

definition simulate :: "nat \<Rightarrow> circuit \<Rightarrow> state_vector" where
  "simulate n c = foldl (\<lambda>\<psi> g. apply_gate g \<psi>) (initial_state n) c"

text \<open>The basis states of \<open>n\<close> qubits, in the order of the indices of the state vector.\<close>

fun basis_states :: "nat \<Rightarrow> bool list list" where
  "basis_states 0 = [[]]"
| "basis_states (Suc n) = map (Cons False) (basis_states n) @ map (Cons True) (basis_states n)"

text \<open>The eigenvalue of \<open>Z\<close> on qubit \<open>i\<close> in the basis state \<open>bs\<close>.\<close>

definition z_sign :: "bool list \<Rightarrow> nat \<Rightarrow> complex" where
  "z_sign bs i = (if bs ! i then - 1 else 1)"

text \<open>
  Two notions for stating that the simulated state is a state: the sum of the squared
  moduli of the amplitudes, and the operations of a circuit acting on qubits below \<open>n\<close>.
\<close>

definition total_probability :: "nat \<Rightarrow> state_vector \<Rightarrow> real" where
  "total_probability n \<psi> = sum_list (map (\<lambda>bs. (cmod (\<psi> bs))\<^sup>2) (basis_states n))"

fun gate_in_range :: "nat \<Rightarrow> gate \<Rightarrow> bool" where
  "gate_in_range n (H q) \<longleftrightarrow> q < n"
| "gate_in_range n (Rx \<theta> q) \<longleftrightarrow> q < n"
| "gate_in_range n (ZZPow t i j) \<longleftrightarrow> i < n \<and> j < n"

text \<open>
  \<^verbatim>\<open>zz_op = cirq.Z(qubits[i]) * cirq.Z(qubits[j])
zz_val = zz_op.expectation_from_state_vector(state_vector, qubit_map=...).real\<close>
\<close>

definition zz_expectation :: "nat \<Rightarrow> state_vector \<Rightarrow> nat \<Rightarrow> nat \<Rightarrow> real" where
  "zz_expectation n \<psi> i j =
     Re (sum_list (map (\<lambda>bs. cnj (\<psi> bs) * (z_sign bs i * z_sign bs j * \<psi> bs)) (basis_states n)))"

text \<open>
  \<^verbatim>\<open>circuit = create_ansatz(params, qubits)
state_vector = simulator.simulate(circuit).final_state_vector
energy = sum(a*a for a in numbers)  # Constant term
for i in range(n_qubits):
    for j in range(i+1, n_qubits):
        weight = 2 * numbers[i] * numbers[j]
        ...
        energy += weight * zz_val
return energy\<close>
  The constant term and each \<open>weight\<close> are \<open>np.int64\<close>; the product with the floating-point
  \<open>zz_val\<close> and the running \<open>energy\<close> are floating-point.
\<close>

definition expectation_value :: "int64 list \<Rightarrow> real list \<Rightarrow> py_error + real" where
  "expectation_value numbers params =
     (let n_qubits = length numbers
      in case create_ansatz n_qubits params of
           Inl e \<Rightarrow> Inl e
         | Inr c \<Rightarrow>
             (let state_vector = simulate n_qubits c;
                  energy = real_of_int (sint (sum_list (map (\<lambda>a. a * a) numbers)))
              in Inr (foldl (\<lambda>energy (i, j).
                         energy + real_of_int (sint (2 * numbers ! i * numbers ! j))
                                    * zz_expectation n_qubits state_vector i j)
                       energy (qubit_pairs n_qubits))))"



section \<open>Properties\<close>

subsection \<open>Spin-flip symmetry of the cost\<close>

lemma signed_sum_uminus:
  "sum_list (map (\<lambda>(a, spin). a * word_of_int spin) (zip numbers (map uminus p))) =
     - sum_list (map (\<lambda>(a, spin). a * word_of_int spin) (zip (numbers :: int64 list) p))"
proof (induction numbers arbitrary: p)
  case Nil
  show ?case by simp
next
  case (Cons a numbers)
  show ?case
  proof (cases p)
    case Nil
    then show ?thesis by simp
  next
    case (Cons s p')
    then show ?thesis using Cons.IH [of p'] by simp
  qed
qed

text \<open>
  C8. The cost of a spin assignment equals the cost of its global spin flip (every entry
  negated), for every list of numbers and every spin assignment.
\<close>

theorem compute_cost_spin_flip:
  "compute_cost numbers (map uminus p) = compute_cost numbers p"
  by (simp add: compute_cost_def Let_def signed_sum_uminus)

theorem compute_cost_spin_flip_witness:
  "compute_cost [1, 1, 2, 2] (map uminus [1, - 1, - 1, 1]) = 0 \<and>
   compute_cost [1, 1, 2, 2] [1, - 1, - 1, 1] = 0"
  using compute_cost_spin_flip [of "[1, 1, 2, 2]" "[1, - 1, - 1, 1]"]
  by (simp add: compute_cost_def Let_def)

subsection \<open>Aggregation of a sample batch\<close>

lemma keys_increment_count: "map fst (increment_count p d) = map fst d"
  by (induction d) (auto simp: increment_count_def)

lemma map_of_increment_count:
  "map_of (increment_count p d) k =
     (if k = p then map_option (\<lambda>info. info\<lparr>count := count info + 1\<rparr>) (map_of d p)
      else map_of d k)"
  by (induction d) (auto simp: increment_count_def)

lemma sum_counts_increment:
  "distinct (map fst d) \<Longrightarrow> p \<in> set (map fst d) \<Longrightarrow>
   sum_list (map (\<lambda>e. count (snd e)) (increment_count p d)) = sum_list (map (\<lambda>e. count (snd e)) d) + 1"
proof (induction d)
  case Nil
  then show ?case by simp
next
  case (Cons x d)
  obtain k info where x: "x = (k, info)" by (cases x)
  show ?case
  proof (cases "k = p")
    case True
    with Cons.prems x have "p \<notin> set (map fst d)" by auto
    then have "increment_count p d = d"
      by (induction d) (auto simp: increment_count_def)
    with True x show ?thesis by (simp add: increment_count_def)
  next
    case False
    with Cons x show ?thesis by (auto simp: increment_count_def)
  qed
qed

lemma shots_of_snoc:
  "shots_of (seen @ [bits]) p = shots_of seen p + (if bitstring_to_partition bits = p then 1 else 0)"
  by (simp add: shots_of_def)

lemma shots_of_unseen: "p \<notin> bitstring_to_partition ` set seen \<Longrightarrow> shots_of seen p = 0"
  by (auto simp: shots_of_def filter_empty_conv)

lemma record_shot_keys:
  "distinct (map fst d) \<Longrightarrow> distinct (map fst (record_shot numbers d bits))"
  by (auto simp: record_shot_def Let_def keys_increment_count)

lemma record_shot_map_of:
  assumes "map_of d = dict_of numbers seen"
  shows "map_of (record_shot numbers d bits) = dict_of numbers (seen @ [bits])"
proof
  fix k
  let ?p = "bitstring_to_partition bits"
  have dom: "?p \<in> set (map fst d) \<longleftrightarrow> ?p \<in> bitstring_to_partition ` set seen"
    using assms by (metis dict_of_def domIff dom_map_of_conv_image_fst option.distinct(1) set_map)
  show "map_of (record_shot numbers d bits) k = dict_of numbers (seen @ [bits]) k"
  proof (cases "?p \<in> set (map fst d)")
    case True
    then have "record_shot numbers d bits = increment_count ?p d"
      by (simp add: record_shot_def Let_def)
    then show ?thesis using True dom assms
      by (auto simp: map_of_increment_count dict_of_def shots_of_snoc)
  next
    case False
    then have "record_shot numbers d bits = d @ [(?p, \<lparr>cost = compute_cost numbers ?p, count = 1\<rparr>)]"
      by (simp add: record_shot_def Let_def)
    then show ?thesis using False dom assms
      by (auto simp: dict_of_def shots_of_snoc shots_of_unseen map_add_def split: option.splits)
  qed
qed

lemma partition_costs_snoc:
  "partition_costs numbers (ms @ [bits]) = record_shot numbers (partition_costs numbers ms) bits"
  by (simp add: partition_costs_def)

lemma distinct_partition_costs: "distinct (map fst (partition_costs numbers ms))"
proof (induction ms rule: rev_induct)
  case Nil
  show ?case by (simp add: partition_costs_def)
next
  case (snoc bits ms)
  then show ?case by (simp add: partition_costs_snoc record_shot_keys)
qed

lemma map_of_partition_costs: "map_of (partition_costs numbers ms) = dict_of numbers ms"
proof (induction ms rule: rev_induct)
  case Nil
  show ?case by (auto simp: partition_costs_def dict_of_def)
next
  case (snoc bits ms)
  then show ?case by (simp add: partition_costs_snoc record_shot_map_of)
qed

lemma sum_counts_step:
  "distinct (map fst d) \<Longrightarrow>
   sum_list (map (\<lambda>e. count (snd e)) (record_shot numbers d bits)) = sum_list (map (\<lambda>e. count (snd e)) d) + 1"
  by (simp add: record_shot_def Let_def sum_counts_increment)

lemma sum_counts_partition_costs:
  "sum_list (map (\<lambda>e. count (snd e)) (partition_costs numbers ms)) = length ms"
proof (induction ms rule: rev_induct)
  case Nil
  show ?case by (simp add: partition_costs_def)
next
  case (snoc bits ms)
  from sum_counts_step [OF distinct_partition_costs [of numbers ms], of numbers bits] snoc show ?case
    by (simp add: partition_costs_snoc)
qed

lemma keys_partition_costs:
  "set (map fst (partition_costs numbers ms)) = bitstring_to_partition ` set ms"
proof -
  have "dom (map_of (partition_costs numbers ms)) = bitstring_to_partition ` set ms"
    by (auto simp: map_of_partition_costs dict_of_def dom_def)
  then show ?thesis by (simp add: dom_map_of_conv_image_fst)
qed

text \<open>
  C7. For every batch of \<open>M\<close> shots: a shot is mapped to its partition bit by bit, \<open>0\<close> to \<open>+1\<close>
  and \<open>1\<close> to \<open>-1\<close>; the dictionary built by the aggregation loop has each observed partition
  as a key exactly once, every shot's partition is a key whose entry holds its cost and the
  number of shots that map to it, and the counts add up to exactly \<open>M\<close>.
\<close>

theorem aggregation_counts:
  "sum_list (map (\<lambda>e. count (snd e)) (partition_costs numbers ms)) = length ms \<and>
   distinct (map fst (partition_costs numbers ms)) \<and>
   set (map fst (partition_costs numbers ms)) = bitstring_to_partition ` set ms \<and>
   (\<forall>bits \<in> set ms.
      map_of (partition_costs numbers ms) (bitstring_to_partition bits) =
        Some \<lparr>cost = compute_cost numbers (bitstring_to_partition bits),
              count = length (filter (\<lambda>b. bitstring_to_partition b = bitstring_to_partition bits) ms)\<rparr>) \<and>
   length (bitstring_to_partition bits) = length bits \<and>
   (\<forall>i < length bits.
      (bits ! i = 0 \<longrightarrow> bitstring_to_partition bits ! i = 1) \<and>
      (bits ! i = 1 \<longrightarrow> bitstring_to_partition bits ! i = - 1))"
proof -
  have "\<forall>bits \<in> set ms.
      map_of (partition_costs numbers ms) (bitstring_to_partition bits) =
        Some \<lparr>cost = compute_cost numbers (bitstring_to_partition bits),
              count = length (filter (\<lambda>b. bitstring_to_partition b = bitstring_to_partition bits) ms)\<rparr>"
    by (simp add: map_of_partition_costs dict_of_def shots_of_def)
  moreover have "\<forall>i < length bits.
      (bits ! i = 0 \<longrightarrow> bitstring_to_partition bits ! i = 1) \<and>
      (bits ! i = 1 \<longrightarrow> bitstring_to_partition bits ! i = - 1)"
    by (simp add: bitstring_to_partition_def)
  moreover have "length (bitstring_to_partition bits) = length bits"
    by (simp add: bitstring_to_partition_def)
  ultimately show ?thesis
    using sum_counts_partition_costs [of numbers ms] distinct_partition_costs [of numbers ms]
      keys_partition_costs [of numbers ms]
    by blast
qed

theorem aggregation_counts_witness:
  "sum_list (map (\<lambda>e. count (snd e)) (partition_costs [3, 5] [[0, 1], [1, 0], [0, 1]])) = 3 \<and>
   map_of (partition_costs [3, 5] [[0, 1], [1, 0], [0, 1]]) [1, - 1] =
     Some \<lparr>cost = 4, count = 2\<rparr> \<and>
   bitstring_to_partition [0, 1] = [1, - 1]"
proof -
  have b: "bitstring_to_partition [0, 1] = [1, - 1]" "bitstring_to_partition [1, 0] = [- 1, 1]"
    by (simp_all add: bitstring_to_partition_def)
  have c: "compute_cost [3, 5] [1, - 1] = 4"
    by (simp add: compute_cost_def)
  have "[0, 1] \<in> set [[0, 1], [1, 0], [0, 1 :: nat]]"
    by simp
  with aggregation_counts [of "[3, 5]" "[[0, 1], [1, 0], [0, 1]]" "[0, 1]"]
  have "sum_list (map (\<lambda>e. count (snd e)) (partition_costs [3, 5] [[0, 1], [1, 0], [0, 1]])) = 3"
    and "map_of (partition_costs [3, 5] [[0, 1], [1, 0], [0, 1]]) (bitstring_to_partition [0, 1]) =
        Some \<lparr>cost = compute_cost [3, 5] (bitstring_to_partition [0, 1]),
              count = length (filter (\<lambda>b. bitstring_to_partition b = bitstring_to_partition [0, 1])
                [[0, 1], [1, 0], [0, 1]])\<rparr>"
    by simp_all
  then show ?thesis using b c by simp
qed


subsection \<open>Numbers as 64-bit integers and their exact values\<close>

lemma sint_in_range:
  "- (2 ^ 63) \<le> x \<Longrightarrow> x < 2 ^ 63 \<Longrightarrow> sint (word_of_int x :: int64) = x"
  by (simp add: sint_sbintrunc' signed_take_bit_int_eq_self)

lemma sint_nonneg_in_range:
  "0 \<le> x \<Longrightarrow> x < 2 ^ 63 \<Longrightarrow> sint (word_of_int x :: int64) = x"
  by (rule sint_in_range) (simp_all add: order_trans [of _ 0])

lemma sint_wrapped: "sint (word_of_int x :: int64) = signed_take_bit 63 x"
  by (simp add: sint_sbintrunc')

lemma word_sum_list:
  "sum_list (map (\<lambda>x. word_of_int (f x)) xs) = (word_of_int (sum_list (map f xs)) :: int64)"
  by (induction xs) simp_all

lemma constant_term_exact: "constant_term numbers = word_of_int (exact_sum_of_squares numbers)"
proof -
  have "map (\<lambda>a. a * a) numbers = map (\<lambda>a. word_of_int (sint a * sint a)) numbers"
    by simp
  then show ?thesis
    by (simp only: constant_term_def exact_sum_of_squares_def word_sum_list)
qed

lemma exact_sum_of_squares_index:
  "exact_sum_of_squares numbers = (\<Sum>i<length numbers. (sint (numbers ! i))\<^sup>2)"
  unfolding exact_sum_of_squares_def
  by (simp add: sum_list_sum_nth atLeast0LessThan power2_eq_square)

lemma exact_sum_of_squares_nonneg: "0 \<le> exact_sum_of_squares numbers"
  unfolding exact_sum_of_squares_def by (induction numbers) simp_all

lemma pair_below_sum_of_squares:
  assumes "i < j" and "j < length numbers"
  shows "(sint (numbers ! i))\<^sup>2 + (sint (numbers ! j))\<^sup>2 \<le> exact_sum_of_squares numbers"
proof -
  have "(\<Sum>k\<in>{i, j}. (sint (numbers ! k))\<^sup>2) \<le> (\<Sum>k<length numbers. (sint (numbers ! k))\<^sup>2)"
    using assms by (intro sum_mono2) auto
  with assms(1) show ?thesis
    by (simp add: exact_sum_of_squares_index)
qed

lemma double_product_bound: "\<bar>2 * x * y\<bar> \<le> x\<^sup>2 + y\<^sup>2" for x y :: int
proof -
  have "0 \<le> (x - y)\<^sup>2" "0 \<le> (x + y)\<^sup>2" by simp_all
  then show ?thesis
    by (simp add: power2_eq_square algebra_simps abs_le_iff)
qed

lemma weight_exact:
  assumes "exact_sum_of_squares numbers < 2 ^ 63" and "i < j" and "j < length numbers"
  shows "sint (2 * numbers ! i * numbers ! j) = 2 * sint (numbers ! i) * sint (numbers ! j)"
proof -
  let ?w = "2 * sint (numbers ! i) * sint (numbers ! j)"
  have "\<bar>?w\<bar> \<le> exact_sum_of_squares numbers"
    using double_product_bound [of "sint (numbers ! i)" "sint (numbers ! j)"]
      pair_below_sum_of_squares [OF assms(2,3)]
    by linarith
  with assms(1) have "- (2 ^ 63) \<le> ?w" "?w < 2 ^ 63"
    by linarith+
  then have "sint (word_of_int ?w :: int64) = ?w"
    by (rule sint_in_range)
  then show ?thesis by simp
qed

subsection \<open>The Hamiltonian built by the encoder\<close>

lemma pair_count: "(\<Sum>i<n. n - Suc i) = n * (n - 1) div 2"
proof -
  have "(\<Sum>i<n. n - Suc i) = (\<Sum>i<n. i)"
    by (rule sum.nat_diff_reindex)
  moreover have "2 * (\<Sum>i<n. i) = n * (n - 1)"
    by (induction n) (auto simp: algebra_simps)
  ultimately show ?thesis by simp
qed

lemma length_cost_terms:
  "length (cost_terms numbers) = length numbers * (length numbers - 1) div 2"
proof -
  have "length (cost_terms numbers) = (\<Sum>i<length numbers. length numbers - Suc i)"
    by (simp add: cost_terms_def length_concat comp_def interv_sum_list_conv_sum_set_nat
        atLeast0LessThan)
  then show ?thesis by (simp add: pair_count)
qed

lemma set_cost_terms:
  "set (cost_terms numbers) =
     {(i, j, 2 * numbers ! i * numbers ! j) | i j. i < j \<and> j < length numbers}"
  by (fastforce simp: cost_terms_def)

lemma distinct_index_pairs:
  "distinct xs \<Longrightarrow> (\<And>i. i \<in> set xs \<Longrightarrow> distinct (g i)) \<Longrightarrow>
     distinct (concat (map (\<lambda>i. map (Pair i) (g i)) xs))"
  by (induction xs) (auto simp: distinct_map inj_on_def)

lemma distinct_cost_terms: "distinct (map (\<lambda>(i, j, w). (i, j)) (cost_terms numbers))"
  unfolding cost_terms_def
  by (simp add: map_concat comp_def distinct_index_pairs)

text \<open>
  C1 (as stated: for every list of numbers the constant term is the sum of the squares and
  each weight is \<open>2 a\<^sub>i a\<^sub>j\<close>). The numbers are 64-bit integers and the encoder's arithmetic
  wraps around: for the two numbers \<open>3037000500\<close> the sum of the squares is
  \<open>18446744074000500000\<close>, but the constant term and the weight of the pair are both
  \<open>290948384\<close>.
\<close>

theorem encoder_overflow_counterexample:
  "sint (constant_term [3037000500, 3037000500]) = 290948384 \<and>
   cost_terms [3037000500, 3037000500] = [(0, 1, 290948384)] \<and>
   sint (3037000500 :: int64) = 3037000500 \<and>
   (3037000500 :: int) * 3037000500 + 3037000500 * 3037000500 = 18446744074000500000 \<and>
   2 * (3037000500 :: int) * 3037000500 = 18446744074000500000"
  by (simp add: constant_term_def cost_terms_def)

text \<open>
  C1 (amended). For every list of 64-bit numbers \<open>a\<^sub>0 \<dots> a\<^sub>n\<^sub>-\<^sub>1\<close> the encoder's list of pairwise
  terms has exactly \<open>n (n - 1) / 2\<close> entries, no index pair twice, and holds exactly one
  triple for every \<open>i < j < n\<close>, with the weight \<open>2 a\<^sub>i a\<^sub>j\<close> computed in 64-bit arithmetic; the
  constant term is the sum of the squares reduced to a signed 64-bit value. Whenever the
  sum of the squares is below \<open>2\<^sup>6\<^sup>3\<close>, the constant term equals the sum of the squares and
  every weight equals \<open>2 a\<^sub>i a\<^sub>j\<close> exactly.
\<close>

theorem encoder_hamiltonian:
  "length (cost_terms numbers) = length numbers * (length numbers - 1) div 2 \<and>
   distinct (map (\<lambda>(i, j, w). (i, j)) (cost_terms numbers)) \<and>
   set (cost_terms numbers) =
     {(i, j, 2 * numbers ! i * numbers ! j) | i j. i < j \<and> j < length numbers} \<and>
   sint (constant_term numbers) =
     signed_take_bit 63 (\<Sum>i<length numbers. (sint (numbers ! i))\<^sup>2) \<and>
   ((\<Sum>i<length numbers. (sint (numbers ! i))\<^sup>2) < 2 ^ 63 \<longrightarrow>
      sint (constant_term numbers) = (\<Sum>i<length numbers. (sint (numbers ! i))\<^sup>2) \<and>
      (\<forall>i j. i < j \<and> j < length numbers \<longrightarrow>
         sint (2 * numbers ! i * numbers ! j) = 2 * sint (numbers ! i) * sint (numbers ! j)))"
proof -
  have wrapped: "sint (constant_term numbers) =
      signed_take_bit 63 (\<Sum>i<length numbers. (sint (numbers ! i))\<^sup>2)"
    by (simp only: constant_term_exact sint_wrapped exact_sum_of_squares_index)
  have exact: "sint (constant_term numbers) = (\<Sum>i<length numbers. (sint (numbers ! i))\<^sup>2) \<and>
      (\<forall>i j. i < j \<and> j < length numbers \<longrightarrow>
         sint (2 * numbers ! i * numbers ! j) = 2 * sint (numbers ! i) * sint (numbers ! j))"
    if bound: "(\<Sum>i<length numbers. (sint (numbers ! i))\<^sup>2) < 2 ^ 63"
  proof -
    from bound have small: "exact_sum_of_squares numbers < 2 ^ 63"
      by (simp only: exact_sum_of_squares_index)
    from sint_nonneg_in_range [OF exact_sum_of_squares_nonneg small]
    have "sint (constant_term numbers) = (\<Sum>i<length numbers. (sint (numbers ! i))\<^sup>2)"
      by (simp only: constant_term_exact exact_sum_of_squares_index)
    with weight_exact [OF small] show ?thesis by blast
  qed
  show ?thesis
    using length_cost_terms [of numbers] distinct_cost_terms [of numbers]
      set_cost_terms [of numbers] wrapped exact
    by blast
qed

theorem encoder_hamiltonian_witness:
  "constant_term [3, 1, 2] = 14 \<and>
   length (cost_terms [3, 1, 2]) = 3 \<and>
   (1, 2, 4) \<in> set (cost_terms [3, 1, 2]) \<and>
   sint (2 * [3, 1, 2 :: int64] ! 1 * [3, 1, 2] ! 2) = 4"
proof -
  have bound: "(\<Sum>i<length [3, 1, 2 :: int64]. (sint ([3, 1, 2 :: int64] ! i))\<^sup>2) < 2 ^ 63"
    by (simp add: lessThan_Suc numeral_3_eq_3)
  have "(1, 2, 2 * [3, 1, 2] ! 1 * [3, 1, 2] ! 2) \<in> set (cost_terms [3, 1, 2 :: int64])"
    using encoder_hamiltonian [of "[3, 1, 2]"] by fastforce
  moreover have "length (cost_terms [3, 1, 2]) = 3"
    using encoder_hamiltonian [of "[3, 1, 2]"] by simp
  moreover have "sint (2 * [3, 1, 2 :: int64] ! 1 * [3, 1, 2] ! 2) =
      2 * sint ([3, 1, 2 :: int64] ! 1) * sint ([3, 1, 2 :: int64] ! 2)"
    using encoder_hamiltonian [of "[3, 1, 2]"] bound by fastforce
  moreover have "constant_term [3, 1, 2] = 14"
    by (simp add: constant_term_def)
  ultimately show ?thesis by simp
qed

subsection \<open>The encoder on fewer than two numbers\<close>

text \<open>
  C5 (as stated: the encoder fails on fewer than two numbers). The encoder has no check
  on the length of its input: on \<open>[5]\<close> it completes with constant term \<open>25\<close> and no pairwise
  term.
\<close>

theorem encoder_single_number_counterexample:
  "problem_encoder [5] = Inr \<lparr>h_constant = 25, h_pairwise = []\<rparr>"
  by (simp add: problem_encoder_def constant_term_def cost_terms_def)

text \<open>
  C5 (amended). On an input of fewer than two numbers the encoder does not fail: it
  returns an empty list of pairwise terms and, as constant term, \<open>0\<close> for the empty input
  and the square \<open>a a\<close> in 64-bit arithmetic for the input \<open>[a]\<close>, which is the exact square
  whenever that is below \<open>2\<^sup>6\<^sup>3\<close>.
\<close>

theorem encoder_short_input:
  "length numbers < 2 \<Longrightarrow>
     problem_encoder numbers =
       Inr \<lparr>h_constant = (case numbers of [] \<Rightarrow> 0 | a # as \<Rightarrow> a * a), h_pairwise = []\<rparr> \<and>
     (exact_sum_of_squares numbers < 2 ^ 63 \<longrightarrow>
        sint (constant_term numbers) = exact_sum_of_squares numbers)"
proof -
  assume short: "length numbers < 2"
  have "length (cost_terms numbers) = 0 \<and>
      constant_term numbers = (case numbers of [] \<Rightarrow> 0 | a # as \<Rightarrow> a * a)"
  proof (cases numbers)
    case Nil
    then show ?thesis by (simp add: length_cost_terms constant_term_def)
  next
    case (Cons a as)
    with short have "as = []" by simp
    with Cons show ?thesis by (simp add: length_cost_terms constant_term_def)
  qed
  moreover have "sint (constant_term numbers) = exact_sum_of_squares numbers"
    if "exact_sum_of_squares numbers < 2 ^ 63"
  proof -
    from sint_nonneg_in_range [OF exact_sum_of_squares_nonneg that] show ?thesis
      by (simp only: constant_term_exact)
  qed
  ultimately show ?thesis
    by (simp add: problem_encoder_def)
qed

theorem encoder_short_input_witness:
  "length ([4294967296] :: int64 list) < 2 \<and>
   problem_encoder [4294967296] = Inr \<lparr>h_constant = 0, h_pairwise = []\<rparr> \<and>
   problem_encoder [] = Inr \<lparr>h_constant = 0, h_pairwise = []\<rparr> \<and>
   problem_encoder [- 7] = Inr \<lparr>h_constant = 49, h_pairwise = []\<rparr>"
  using encoder_short_input [of "[4294967296]"] encoder_short_input [of "[]"]
    encoder_short_input [of "[- 7]"]
  by simp


subsection \<open>The report of the decoder\<close>

lemma make_row_observed:
  assumes "p \<in> bitstring_to_partition ` set ms" and "length numbers \<le> length p"
  shows "make_row numbers (partition_costs numbers ms) p = Inr (row_of numbers ms p)"
  using assms
  by (simp add: make_row_def sub_a_def sub_b_def map_of_partition_costs dict_of_def row_of_def)

lemma table_data_observed:
  assumes "set ps \<subseteq> bitstring_to_partition ` set ms"
    and "\<forall>p \<in> set ps. length numbers \<le> length p"
  shows "table_data numbers (partition_costs numbers ms) ps = Inr (map (row_of numbers ms) ps)"
  using assms
  by (induction ps) (simp_all add: make_row_observed)

lemma cost_of_entry:
  assumes "e \<in> set (partition_costs numbers ms)"
  shows "cost (snd e) = compute_cost numbers (fst e)"
    and "fst e \<in> bitstring_to_partition ` set ms"
proof -
  have "map_of (partition_costs numbers ms) (fst e) = Some (snd e)"
    using assms distinct_partition_costs [of numbers ms] by simp
  then have "dict_of numbers ms (fst e) = Some (snd e)"
    by (simp add: map_of_partition_costs)
  then have "fst e \<in> bitstring_to_partition ` set ms \<and>
      snd e = \<lparr>cost = compute_cost numbers (fst e), count = shots_of ms (fst e)\<rparr>"
    by (simp add: dict_of_def split: if_splits)
  then show "cost (snd e) = compute_cost numbers (fst e)"
    and "fst e \<in> bitstring_to_partition ` set ms"
    by simp_all
qed

lemma costs_partition_costs:
  "set (map (\<lambda>e. cost (snd e)) (partition_costs numbers ms)) =
     compute_cost numbers ` bitstring_to_partition ` set ms"
proof -
  have "map (\<lambda>e. cost (snd e)) (partition_costs numbers ms) =
        map (\<lambda>e. compute_cost numbers (fst e)) (partition_costs numbers ms)"
    by (rule map_cong) (simp_all add: cost_of_entry)
  then have "set (map (\<lambda>e. cost (snd e)) (partition_costs numbers ms)) =
        compute_cost numbers ` set (map fst (partition_costs numbers ms))"
    by (simp add: image_image)
  then show ?thesis by (simp only: keys_partition_costs)
qed

lemma py_min_below_first: "sint (py_min c cs) \<le> sint c"
  unfolding py_min_def
proof (induction cs arbitrary: c)
  case Nil
  show ?case by simp
next
  case (Cons x cs)
  show ?case
    using Cons.IH [of x] Cons.IH [of c] by auto
qed

lemma py_min_below: "x \<in> set cs \<Longrightarrow> sint (py_min c cs) \<le> sint x"
proof (induction cs arbitrary: c)
  case Nil
  then show ?case by simp
next
  case (Cons y cs)
  have step: "py_min c (y # cs) = py_min (if sint y < sint c then y else c) cs"
    by (simp add: py_min_def)
  show ?case
  proof (cases "x = y")
    case True
    have "sint (py_min (if sint y < sint c then y else c) cs) \<le>
        sint (if sint y < sint c then y else c)"
      by (rule py_min_below_first)
    also have "\<dots> \<le> sint y" by simp
    finally show ?thesis by (simp only: step True)
  next
    case False
    with Cons.prems have "x \<in> set cs" by simp
    from Cons.IH [OF this] show ?thesis by (simp only: step)
  qed
qed

lemma py_min_member: "py_min c cs \<in> set (c # cs)"
  unfolding py_min_def
proof (induction cs arbitrary: c)
  case Nil
  show ?case by simp
next
  case (Cons x cs)
  show ?case
    using Cons.IH [of x] Cons.IH [of c] by auto
qed

lemma sint_py_min: "sint (py_min c cs) = Min (sint ` set (c # cs))"
proof (rule Min_eqI [symmetric])
  show "finite (sint ` set (c # cs))" by simp
  show "sint (py_min c cs) \<in> sint ` set (c # cs)"
    using py_min_member [of c cs] by blast
  fix y assume "y \<in> sint ` set (c # cs)"
  then obtain x where x: "x \<in> set (c # cs)" and y: "y = sint x" by blast
  show "sint (py_min c cs) \<le> y"
  proof (cases "x = c")
    case True
    with y show ?thesis by (simp add: py_min_below_first)
  next
    case False
    with x have "x \<in> set cs" by simp
    with y show ?thesis by (simp add: py_min_below)
  qed
qed

lemma min_cost_partition_costs:
  assumes "ms \<noteq> []"
  shows "\<exists>m. min_cost (partition_costs numbers ms) = Inr m \<and>
     sint m = Min ((\<lambda>p. sint (compute_cost numbers p)) ` bitstring_to_partition ` set ms)"
proof -
  let ?costs = "map (\<lambda>e. cost (snd e)) (partition_costs numbers ms)"
  have "set (map fst (partition_costs numbers ms)) \<noteq> {}"
    using assms by (simp only: keys_partition_costs) simp
  then have "?costs \<noteq> []" by auto
  then obtain c cs where costs: "?costs = c # cs"
    by (cases ?costs) auto
  then have run: "min_cost (partition_costs numbers ms) = Inr (py_min c cs)"
    by (simp add: min_cost_def)
  have "sint (py_min c cs) = Min (sint ` set ?costs)"
    by (simp only: sint_py_min costs)
  also have "\<dots> = Min (sint ` compute_cost numbers ` bitstring_to_partition ` set ms)"
    by (simp only: costs_partition_costs)
  finally have "sint (py_min c cs) =
      Min ((\<lambda>p. sint (compute_cost numbers p)) ` bitstring_to_partition ` set ms)"
    by (simp only: image_image)
  with run show ?thesis by blast
qed

lemma optimal_partitions_distinct:
  "distinct (optimal_partitions (partition_costs numbers ms) m)"
  unfolding optimal_partitions_def
  using distinct_partition_costs [of numbers ms] by (rule distinct_map_filter)

lemma optimal_partitions_set:
  "set (optimal_partitions (partition_costs numbers ms) m) =
     {p \<in> bitstring_to_partition ` set ms. compute_cost numbers p = m}"
proof -
  have "set (optimal_partitions (partition_costs numbers ms) m) =
      {p \<in> set (map fst (partition_costs numbers ms)). compute_cost numbers p = m}"
    using cost_of_entry(1) [of _ numbers ms]
    by (force simp: optimal_partitions_def case_prod_beta image_iff)
  then show ?thesis by (simp only: keys_partition_costs)
qed

lemma zip_as_indices:
  "length xs \<le> length ys \<Longrightarrow> zip xs ys = map (\<lambda>i. (xs ! i, ys ! i)) [0..<length xs]"
  by (rule nth_equalityI) simp_all

lemma spins_of_bits: "s \<in> set (bitstring_to_partition bits) \<Longrightarrow> s = 1 \<or> s = - 1"
  by (auto simp: bitstring_to_partition_def)

lemma signed_sum_exact:
  "sum_list (map (\<lambda>(a, spin). a * word_of_int spin) (zip numbers p)) =
     (word_of_int (exact_signed_sum numbers p) :: int64)"
proof -
  have "map (\<lambda>(a, spin). a * word_of_int spin) (zip numbers p) =
      map (\<lambda>x. (word_of_int (case x of (a, spin) \<Rightarrow> sint a * spin) :: int64)) (zip numbers p)"
    by (rule map_cong) auto
  then show ?thesis
    by (simp only: exact_signed_sum_def word_sum_list)
qed

lemma compute_cost_exact:
  "compute_cost numbers p = word_of_int ((exact_signed_sum numbers p)\<^sup>2)"
  by (simp add: compute_cost_def Let_def signed_sum_exact power2_eq_square)

lemma abs_below_square: "\<bar>x\<bar> \<le> x\<^sup>2" for x :: int
proof (cases "x = 0")
  case True
  then show ?thesis by simp
next
  case False
  then have "1 \<le> \<bar>x\<bar>" by simp
  then have "\<bar>x\<bar> * 1 \<le> \<bar>x\<bar> * \<bar>x\<bar>"
    by (intro mult_left_mono) simp_all
  then show ?thesis by (simp add: power2_eq_square)
qed

lemma compute_cost_in_range:
  assumes "(exact_signed_sum numbers p)\<^sup>2 < 2 ^ 63"
  shows "sint (compute_cost numbers p) = (exact_signed_sum numbers p)\<^sup>2"
    and "sint (word_of_int (exact_signed_sum numbers p) :: int64) = exact_signed_sum numbers p"
proof -
  show "sint (compute_cost numbers p) = (exact_signed_sum numbers p)\<^sup>2"
    using sint_nonneg_in_range [OF _ assms] by (simp add: compute_cost_exact)
  have "\<bar>exact_signed_sum numbers p\<bar> < 2 ^ 63"
    using abs_below_square [of "exact_signed_sum numbers p"] assms by linarith
  then have "- (2 ^ 63) \<le> exact_signed_sum numbers p" "exact_signed_sum numbers p < 2 ^ 63"
    by linarith+
  then show "sint (word_of_int (exact_signed_sum numbers p) :: int64) = exact_signed_sum numbers p"
    by (rule sint_in_range)
qed

lemma sum_difference_signed:
  assumes len: "length (numbers :: int64 list) \<le> length p"
    and spins: "\<forall>s \<in> set p. s = 1 \<or> s = - 1"
  shows "sum_list (map (\<lambda>i. numbers ! i) (filter (\<lambda>i. p ! i = 1) [0..<length numbers])) -
         sum_list (map (\<lambda>i. numbers ! i) (filter (\<lambda>i. p ! i = - 1) [0..<length numbers])) =
         word_of_int (exact_signed_sum numbers p)"
proof -
  have pointwise: "(if p ! i = 1 then numbers ! i else 0) - (if p ! i = - 1 then numbers ! i else 0) =
      numbers ! i * word_of_int (p ! i)" if "i < length numbers" for i
  proof -
    from that len have "p ! i \<in> set p" by simp
    with spins have "p ! i = 1 \<or> p ! i = - 1" by blast
    then show ?thesis by auto
  qed
  have "sum_list (map (\<lambda>i. numbers ! i) (filter (\<lambda>i. p ! i = 1) [0..<length numbers])) -
        sum_list (map (\<lambda>i. numbers ! i) (filter (\<lambda>i. p ! i = - 1) [0..<length numbers])) =
        (\<Sum>i<length numbers. (if p ! i = 1 then numbers ! i else 0) -
           (if p ! i = - 1 then numbers ! i else 0))"
    by (simp add: sum_list_map_filter' interv_sum_list_conv_sum_set_nat atLeast0LessThan
        sum_subtractf)
  also have "\<dots> = (\<Sum>i<length numbers. numbers ! i * word_of_int (p ! i))"
    by (rule sum.cong) (simp_all add: pointwise)
  also have "\<dots> = sum_list (map (\<lambda>(a, spin). a * word_of_int spin) (zip numbers p))"
    by (simp add: zip_as_indices [OF len] comp_def interv_sum_list_conv_sum_set_nat
        atLeast0LessThan)
  finally show ?thesis by (simp only: signed_sum_exact)
qed

text \<open>
  C6 (as stated: the reported partitions are those of minimum cost, the cost being the
  square of the signed sum). Costs are computed in 64-bit arithmetic and compared as
  signed values. For the numbers \<open>3037000500\<close> and \<open>1\<close> and the two shots \<open>00\<close> and \<open>01\<close>, the
  partition \<open>(1, -1)\<close> has the smaller squared sum, but the square for \<open>(1, 1)\<close> wraps
  around to a negative value, so the decoder reports \<open>(1, 1)\<close> alone.
\<close>

theorem decoder_overflow_counterexample:
  "decoder [3037000500, 1] [[0, 0], [0, 1]] =
     Inr [\<lparr>row_partition = [1, 1], first_partition = [3037000500, 1], second_partition = [],
            sum_difference = 3037000501, frequency = 1\<rparr>] \<and>
   bitstring_to_partition [0, 1] = [1, - 1] \<and>
   (exact_signed_sum [3037000500, 1] [1, - 1])\<^sup>2 < (exact_signed_sum [3037000500, 1] [1, 1])\<^sup>2"
  by (simp add: decoder_def partition_costs_def record_shot_def increment_count_def
      bitstring_to_partition_def compute_cost_def min_cost_def py_min_def
      optimal_partitions_def make_row_def sub_a_def sub_b_def Let_def upt_rec
      exact_signed_sum_def)

text \<open>
  C6 (amended). For every non-empty batch of measurements (each with a bit for every
  number) the decoder completes and reports exactly the observed partitions whose cost as
  computed, a signed 64-bit value, is the least among the observed partitions, each once;
  the row of such a partition holds the numbers with spin \<open>+1\<close>, the numbers with spin \<open>-1\<close>,
  the difference of their sums in 64-bit arithmetic and the number of shots that gave the
  partition. Whenever the squared signed sum of every observed partition is below \<open>2\<^sup>6\<^sup>3\<close>,
  the reported partitions are exactly the observed partitions of minimum squared signed
  sum, and the reported difference is the signed sum itself (not its square).
\<close>

theorem decoder_reports_all_minima:
  assumes nonempty: "measurements \<noteq> []"
    and wide: "\<forall>bits \<in> set measurements. length numbers \<le> length bits"
  shows "\<exists>rows. decoder numbers measurements = Inr rows \<and>
     distinct (map row_partition rows) \<and>
     set (map row_partition rows) =
       {p \<in> bitstring_to_partition ` set measurements.
          sint (compute_cost numbers p) =
            Min ((\<lambda>p. sint (compute_cost numbers p)) ` bitstring_to_partition ` set measurements)} \<and>
     (\<forall>r \<in> set rows.
        first_partition r =
          map (\<lambda>i. numbers ! i) (filter (\<lambda>i. row_partition r ! i = 1) [0..<length numbers]) \<and>
        second_partition r =
          map (\<lambda>i. numbers ! i) (filter (\<lambda>i. row_partition r ! i = - 1) [0..<length numbers]) \<and>
        sum_difference r = sum_list (first_partition r) - sum_list (second_partition r) \<and>
        sum_difference r = word_of_int (exact_signed_sum numbers (row_partition r)) \<and>
        frequency r =
          length (filter (\<lambda>bits. bitstring_to_partition bits = row_partition r) measurements)) \<and>
     ((\<forall>bits \<in> set measurements.
         (exact_signed_sum numbers (bitstring_to_partition bits))\<^sup>2 < 2 ^ 63) \<longrightarrow>
        set (map row_partition rows) =
          {p \<in> bitstring_to_partition ` set measurements.
             (exact_signed_sum numbers p)\<^sup>2 =
               Min ((\<lambda>p. (exact_signed_sum numbers p)\<^sup>2) ` bitstring_to_partition ` set measurements)} \<and>
        (\<forall>r \<in> set rows. sint (sum_difference r) = exact_signed_sum numbers (row_partition r)))"
proof -
  let ?obs = "bitstring_to_partition ` set measurements"
  let ?d = "partition_costs numbers measurements"
  from min_cost_partition_costs [OF nonempty, of numbers] obtain m
    where m: "min_cost ?d = Inr m"
      and least: "sint m = Min ((\<lambda>p. sint (compute_cost numbers p)) ` ?obs)"
    by blast
  let ?ps = "optimal_partitions ?d m"
  let ?rows = "map (row_of numbers measurements) ?ps"
  have observed: "set ?ps \<subseteq> ?obs"
    by (auto simp: optimal_partitions_set)
  have long: "\<forall>p \<in> set ?ps. length numbers \<le> length p"
    using observed wide by (auto simp: bitstring_to_partition_def)
  have run: "decoder numbers measurements = Inr ?rows"
    by (simp add: decoder_def Let_def m table_data_observed [OF observed long])
  have keys: "map row_partition ?rows = ?ps"
    by (simp add: comp_def row_of_def)
  have "(compute_cost numbers p = m) =
      (sint (compute_cost numbers p) = Min ((\<lambda>p. sint (compute_cost numbers p)) ` ?obs))" for p
    unfolding least [symmetric] by (rule word_eq_iff_signed)
  then have reported: "set ?ps =
      {p \<in> ?obs. sint (compute_cost numbers p) = Min ((\<lambda>p. sint (compute_cost numbers p)) ` ?obs)}"
    by (simp only: optimal_partitions_set)
  have each: "first_partition r =
          map (\<lambda>i. numbers ! i) (filter (\<lambda>i. row_partition r ! i = 1) [0..<length numbers]) \<and>
        second_partition r =
          map (\<lambda>i. numbers ! i) (filter (\<lambda>i. row_partition r ! i = - 1) [0..<length numbers]) \<and>
        sum_difference r = sum_list (first_partition r) - sum_list (second_partition r) \<and>
        sum_difference r = word_of_int (exact_signed_sum numbers (row_partition r)) \<and>
        frequency r =
          length (filter (\<lambda>bits. bitstring_to_partition bits = row_partition r) measurements)"
    if "r \<in> set ?rows" for r
  proof -
    from that obtain p where p: "p \<in> set ?ps" and r: "r = row_of numbers measurements p"
      by auto
    from p observed obtain bits where "bits \<in> set measurements" "p = bitstring_to_partition bits"
      by auto
    then have spins: "\<forall>s \<in> set p. s = 1 \<or> s = - 1"
      using spins_of_bits by blast
    from p long have "length numbers \<le> length p" by blast
    from sum_difference_signed [OF this spins] show ?thesis
      by (simp add: r row_of_def shots_of_def)
  qed
  have exact: "set ?ps =
          {p \<in> ?obs. (exact_signed_sum numbers p)\<^sup>2 =
               Min ((\<lambda>p. (exact_signed_sum numbers p)\<^sup>2) ` ?obs)} \<and>
        (\<forall>r \<in> set ?rows. sint (sum_difference r) = exact_signed_sum numbers (row_partition r))"
    if bound: "\<forall>bits \<in> set measurements.
         (exact_signed_sum numbers (bitstring_to_partition bits))\<^sup>2 < 2 ^ 63"
  proof -
    have small: "(exact_signed_sum numbers p)\<^sup>2 < 2 ^ 63" if "p \<in> ?obs" for p
      using that bound by blast
    have same: "sint (compute_cost numbers p) = (exact_signed_sum numbers p)\<^sup>2" if "p \<in> ?obs" for p
      using compute_cost_in_range(1) [OF small [OF that]] .
    then have "(\<lambda>p. sint (compute_cost numbers p)) ` ?obs = (\<lambda>p. (exact_signed_sum numbers p)\<^sup>2) ` ?obs"
      by (intro image_cong) simp_all
    with reported same have "set ?ps =
          {p \<in> ?obs. (exact_signed_sum numbers p)\<^sup>2 =
               Min ((\<lambda>p. (exact_signed_sum numbers p)\<^sup>2) ` ?obs)}"
      by auto
    moreover have "sint (sum_difference r) = exact_signed_sum numbers (row_partition r)"
      if "r \<in> set ?rows" for r
    proof -
      from that keys have "row_partition r \<in> set ?ps"
        by (metis imageI set_map)
      with observed have "row_partition r \<in> ?obs" by blast
      from each [OF that]
      have "sum_difference r = word_of_int (exact_signed_sum numbers (row_partition r))"
        by blast
      with compute_cost_in_range(2) [OF small [OF \<open>row_partition r \<in> ?obs\<close>]] show ?thesis
        by (simp only:)
    qed
    ultimately show ?thesis by blast
  qed
  show ?thesis
    using run keys each reported exact optimal_partitions_distinct [of numbers measurements m]
    by (intro exI [of _ ?rows]) (simp only: simp_thms, blast)
qed

theorem decoder_reports_all_minima_witness:
  "decoder [2, 2] [[0, 1], [0, 0], [1, 0], [0, 1]] =
     Inr [\<lparr>row_partition = [1, - 1], first_partition = [2], second_partition = [2],
            sum_difference = 0, frequency = 2\<rparr>,
          \<lparr>row_partition = [- 1, 1], first_partition = [2], second_partition = [2],
            sum_difference = 0, frequency = 1\<rparr>] \<and>
   (exact_signed_sum [2, 2] (bitstring_to_partition [0, 1]))\<^sup>2 < 2 ^ 63 \<and>
   (exact_signed_sum [2, 2] (bitstring_to_partition [0, 0]))\<^sup>2 < 2 ^ 63 \<and>
   (exact_signed_sum [2, 2] (bitstring_to_partition [1, 0]))\<^sup>2 < 2 ^ 63"
  using decoder_reports_all_minima [of "[[0, 1], [0, 0], [1, 0], [0, 1]]" "[2, 2]"]
  by (simp add: decoder_def partition_costs_def record_shot_def increment_count_def
      bitstring_to_partition_def compute_cost_def min_cost_def py_min_def
      optimal_partitions_def make_row_def sub_a_def sub_b_def Let_def upt_rec
      exact_signed_sum_def)


subsection \<open>The circuit built by \<open>create_ansatz\<close>\<close>

lemma enumerate_shift:
  "map (\<lambda>(k, x). f (Suc m + k) x) (enumerate b xs) =
     map (\<lambda>(k, x). f (m + k) x) (enumerate (Suc b) xs)"
  by (induction xs arbitrary: b) simp_all

lemma rx_loop_run:
  "param_idx + length is \<le> length params \<Longrightarrow>
     rx_loop params is (c, param_idx) =
       Inr (c @ map (\<lambda>(k, i). Rx (params ! (param_idx + k)) i) (enumerate 0 is),
            param_idx + length is)"
proof (induction "is" arbitrary: c param_idx)
  case Nil
  show ?case by simp
next
  case (Cons i "is")
  from Cons.prems have "Suc param_idx + length is \<le> length params" by simp
  from Cons.IH [OF this] Cons.prems show ?case
    by (simp add: enumerate_shift [where f = "\<lambda>k i. Rx (params ! k) i" and b = 0, symmetric])
qed

lemma zz_loop_run:
  "param_idx + length ps \<le> length params \<Longrightarrow>
     zz_loop params ps (c, param_idx) =
       (c @ map (\<lambda>(k, (i, j)). ZZPow (params ! (param_idx + k) / pi) i j) (enumerate 0 ps),
        param_idx + length ps)"
proof (induction ps arbitrary: c param_idx)
  case Nil
  show ?case by simp
next
  case (Cons p ps)
  obtain i j where p: "p = (i, j)" by (cases p)
  from Cons.prems have "Suc param_idx + length ps \<le> length params" by simp
  from Cons.IH [OF this] Cons.prems p show ?case
    by (simp add: enumerate_shift
        [where f = "\<lambda>k (i, j). ZZPow (params ! k / pi) i j" and b = 0, symmetric])
qed

lemma length_qubit_pairs: "length (qubit_pairs n) = n * (n - 1) div 2"
  by (simp add: qubit_pairs_def length_concat comp_def interv_sum_list_conv_sum_set_nat
        atLeast0LessThan pair_count)

lemma enumerate_range: "map (\<lambda>(k, i). f k i) (enumerate 0 [0..<n]) = map (\<lambda>i. f i i) [0..<n]"
  by (rule nth_equalityI) (simp_all add: nth_enumerate_eq)

lemma layer_run:
  assumes "base + params_per_layer n \<le> length params"
  shows "rx_loop params [0..<n] (c, base) =
      Inr (c @ map (\<lambda>i. Rx (params ! (base + i)) i) [0..<n], base + n)"
    and "zz_loop params (qubit_pairs n) (c', base + n) =
      (c' @ map (\<lambda>(k, (i, j)). ZZPow (params ! (base + n + k) / pi) i j)
              (enumerate 0 (qubit_pairs n)),
       base + params_per_layer n)"
proof -
  from assms have "base + length [0..<n] \<le> length params"
    by (simp add: params_per_layer_def)
  from rx_loop_run [OF this, of c]
  show "rx_loop params [0..<n] (c, base) =
      Inr (c @ map (\<lambda>i. Rx (params ! (base + i)) i) [0..<n], base + n)"
    by (simp add: enumerate_range [where f = "\<lambda>k i. Rx (params ! (base + k)) i"])
  from assms have "(base + n) + length (qubit_pairs n) \<le> length params"
    by (simp add: params_per_layer_def length_qubit_pairs)
  from zz_loop_run [OF this, of c']
  show "zz_loop params (qubit_pairs n) (c', base + n) =
      (c' @ map (\<lambda>(k, (i, j)). ZZPow (params ! (base + n + k) / pi) i j)
              (enumerate 0 (qubit_pairs n)),
       base + params_per_layer n)"
    by (simp add: params_per_layer_def length_qubit_pairs add.assoc)
qed

lemma no_pair_skipped:
  "param_idx + length ps \<le> length params \<Longrightarrow> skipped_pairs params ps param_idx = 0"
proof (induction ps arbitrary: param_idx)
  case Nil
  show ?case by simp
next
  case (Cons p ps)
  obtain i j where p: "p = (i, j)" by (cases p)
  from Cons.prems have "Suc param_idx + length ps \<le> length params" by simp
  from Cons.IH [OF this] Cons.prems p show ?case by simp
qed

lemma layer_index_bound:
  assumes "l < L" and "k < (per :: nat)"
  shows "l * per + k < L * per"
proof -
  from assms(2) have "l * per + k < Suc l * per" by simp
  also from assms(1) have "Suc l * per \<le> L * per"
    by (intro mult_le_mono1) simp
  finally show ?thesis .
qed

lemma layer_loop_run:
  "base + k * params_per_layer n \<le> length params \<Longrightarrow>
     layer_loop n params k (c, base) =
       Inr (c @ concat (map (\<lambda>l. layer_gates n params (base + l * params_per_layer n)) [0..<k]),
            base + k * params_per_layer n)"
proof (induction k arbitrary: c base)
  case 0
  show ?case by simp
next
  case (Suc k)
  let ?per = "params_per_layer n"
  from Suc.prems have one: "base + ?per \<le> length params" by simp
  from Suc.prems have rest: "(base + ?per) + k * ?per \<le> length params" by simp
  have shift: "map (\<lambda>l. layer_gates n params (base + l * ?per)) [0..<Suc k] =
      layer_gates n params base # map (\<lambda>l. layer_gates n params (base + ?per + l * ?per)) [0..<k]"
    by (simp add: upt_conv_Cons map_Suc_upt [symmetric] add.assoc del: upt_Suc)
  show ?case
    by (simp only: layer_loop.simps layer_run [OF one] sum.case Suc.IH [OF rest] shift)
      (simp add: layer_gates_def add.assoc)
qed

lemma params_per_layer_pos: "0 < n \<Longrightarrow> 0 < params_per_layer n"
  by (simp add: params_per_layer_def)

lemma create_ansatz_closed_form:
  assumes "0 < n"
  shows "create_ansatz n params =
     Inr (map H [0..<n] @
          concat (map (\<lambda>l. layer_gates n params (l * params_per_layer n))
                    [0..<length params div params_per_layer n]))"
proof -
  have "0 + (length params div params_per_layer n) * params_per_layer n \<le> length params"
    by simp
  from layer_loop_run [OF this, of "map H [0..<n]"] params_per_layer_pos [OF assms]
  show ?thesis by (simp add: create_ansatz_def)
qed

lemma layer_gates_cong:
  assumes "\<And>k. k < params_per_layer n \<Longrightarrow> params ! (base + k) = params' ! (base + k)"
  shows "layer_gates n params base = layer_gates n params' base"
proof -
  have "map (\<lambda>i. Rx (params ! (base + i)) i) [0..<n] = map (\<lambda>i. Rx (params' ! (base + i)) i) [0..<n]"
    by (rule map_cong) (simp_all add: assms params_per_layer_def trans_less_add1)
  moreover have "map (\<lambda>(k, (i, j)). ZZPow (params ! (base + n + k) / pi) i j) (enumerate 0 (qubit_pairs n)) =
      map (\<lambda>(k, (i, j)). ZZPow (params' ! (base + n + k) / pi) i j) (enumerate 0 (qubit_pairs n))"
  proof (rule map_cong)
    fix x assume "x \<in> set (enumerate 0 (qubit_pairs n))"
    then have "fst x < length (qubit_pairs n)"
      by (auto simp: in_set_enumerate_eq)
    then have "n + fst x < params_per_layer n"
      by (simp add: params_per_layer_def length_qubit_pairs)
    from assms [OF this]
    show "(case x of (k, i, j) \<Rightarrow> ZZPow (params ! (base + n + k) / pi) i j) =
          (case x of (k, i, j) \<Rightarrow> ZZPow (params' ! (base + n + k) / pi) i j)"
      by (simp add: case_prod_beta add.assoc)
  qed simp
  ultimately show ?thesis by (simp add: layer_gates_def)
qed

lemma length_layer_gates: "length (layer_gates n params base) = params_per_layer n"
  by (simp add: layer_gates_def params_per_layer_def length_qubit_pairs)

lemma whole_layers_take:
  assumes "0 < n"
  shows "create_ansatz n (take (length params div params_per_layer n * params_per_layer n) params) =
         create_ansatz n params"
proof -
  let ?per = "params_per_layer n"
  let ?L = "length params div ?per"
  let ?short = "take (?L * ?per) params"
  have per: "0 < ?per" using assms by (rule params_per_layer_pos)
  have len: "length ?short = ?L * ?per" by simp
  then have layers: "length ?short div ?per = ?L" using per by simp
  have "layer_gates n ?short (l * ?per) = layer_gates n params (l * ?per)" if "l < ?L" for l
  proof (rule layer_gates_cong)
    fix k assume "k < ?per"
    with that have "l * ?per + k < ?L * ?per"
      by (intro layer_index_bound)
    then show "?short ! (l * ?per + k) = params ! (l * ?per + k)" by simp
  qed
  then have "map (\<lambda>l. layer_gates n ?short (l * ?per)) [0..<?L] =
      map (\<lambda>l. layer_gates n params (l * ?per)) [0..<?L]"
    by (intro map_cong) simp_all
  then show ?thesis
    by (simp only: create_ansatz_closed_form [OF assms] layers)
qed

lemma length_concat_layers:
  "length (concat (map (\<lambda>l. layer_gates n params (f l)) ls)) = length ls * params_per_layer n"
  by (induction ls) (simp_all add: length_layer_gates)

text \<open>
  C10. For every parameter vector and every qubit count \<open>n \<ge> 1\<close>, \<open>create_ansatz\<close> returns a
  circuit: the \<open>n\<close> Hadamard gates followed by \<open>len(params) div (n + n (n - 1) / 2)\<close> complete
  layers, the layer \<open>l\<close> reading the parameters from index \<open>l\<close> times the layer size on, in
  order. The circuit has the length of the Hadamard gates plus all counted layers in full,
  the parameter index ends at the number of layers times the layer size, which is within
  \<open>params\<close>, in no counted layer is the guard of the entangling loop false for any pair, and
  the parameters after the final index are not used: the vector cut there gives the same
  circuit.
\<close>

theorem create_ansatz_whole_layers:
  assumes "0 < n"
  shows "\<exists>c. create_ansatz n params = Inr c \<and>
     c = map H [0..<n] @
         concat (map (\<lambda>l. layer_gates n params (l * params_per_layer n))
                   [0..<length params div params_per_layer n]) \<and>
     length c = n + length params div params_per_layer n * params_per_layer n \<and>
     layer_loop n params (length params div params_per_layer n) (map H [0..<n], 0) =
       Inr (c, length params div params_per_layer n * params_per_layer n) \<and>
     length params div params_per_layer n * params_per_layer n \<le> length params \<and>
     (\<forall>l < length params div params_per_layer n.
        skipped_pairs params (qubit_pairs n) (l * params_per_layer n + n) = 0) \<and>
     create_ansatz n (take (length params div params_per_layer n * params_per_layer n) params) =
       Inr c"
proof -
  let ?per = "params_per_layer n"
  let ?L = "length params div ?per"
  have fits: "0 + ?L * ?per \<le> length params"
    by simp
  have guard: "skipped_pairs params (qubit_pairs n) (l * ?per + n) = 0" if "l < ?L" for l
  proof (rule no_pair_skipped)
    from that have "Suc l * ?per \<le> ?L * ?per"
      by (intro mult_le_mono1) simp
    also have "\<dots> \<le> length params"
      by simp
    finally have "l * ?per + ?per \<le> length params"
      by simp
    then show "l * ?per + n + length (qubit_pairs n) \<le> length params"
      by (simp add: params_per_layer_def length_qubit_pairs)
  qed
  show ?thesis
    using create_ansatz_closed_form [OF assms, of params] whole_layers_take [OF assms, of params]
      layer_loop_run [OF fits, of "map H [0..<n]"] guard
    by (simp add: length_concat_layers)
qed

theorem create_ansatz_whole_layers_witness:
  "create_ansatz 2 [1, 2, 3, 4, 5, 6, 7] =
     Inr [H 0, H 1, Rx 1 0, Rx 2 1, ZZPow (3 / pi) 0 1, Rx 4 0, Rx 5 1, ZZPow (6 / pi) 0 1] \<and>
   create_ansatz 2 [1, 2, 3, 4, 5, 6] = create_ansatz 2 [1, 2, 3, 4, 5, 6, 7]"
  using create_ansatz_whole_layers [of 2 "[1, 2, 3, 4, 5, 6, 7]"]
  by (simp add: params_per_layer_def layer_gates_def qubit_pairs_def upt_rec enumerate_eq_zip)

text \<open>
  C4 (as stated: a parameter vector whose length is not a multiple of the layer size makes
  the builder fail). With two qubits a layer takes three parameters; on four parameters
  the builder returns a circuit of one layer and ignores the fourth.
\<close>

theorem create_ansatz_mismatch_counterexample:
  "length [1, 2, 3, 4 :: real] mod params_per_layer 2 \<noteq> 0 \<and>
   create_ansatz 2 [1, 2, 3, 4] = Inr [H 0, H 1, Rx 1 0, Rx 2 1, ZZPow (3 / pi) 0 1]"
  by (simp add: create_ansatz_def params_per_layer_def qubit_pairs_def upt_rec numeral_2_eq_2)

text \<open>
  C4 (amended). For \<open>n \<ge> 1\<close> and a parameter vector whose length is not a multiple of the
  layer size, the builder does not fail: it returns the \<open>n\<close> Hadamard gates followed by
  \<open>len(params) div (n + n (n - 1) / 2)\<close> complete layers, read from the parameters in order.
  The parameters after these layers (there is at least one) are ignored: the vector cut
  down to its whole layers gives the same circuit.
\<close>

theorem create_ansatz_tolerates_mismatch:
  assumes "0 < n" and "length params mod params_per_layer n \<noteq> 0"
  shows "\<exists>c. create_ansatz n params = Inr c \<and>
     c = map H [0..<n] @
         concat (map (\<lambda>l. layer_gates n params (l * params_per_layer n))
                   [0..<length params div params_per_layer n]) \<and>
     length c = n + length params div params_per_layer n * params_per_layer n \<and>
     length params div params_per_layer n * params_per_layer n < length params \<and>
     create_ansatz n (take (length params - length params mod params_per_layer n) params) = Inr c"
proof -
  let ?per = "params_per_layer n"
  have cut: "length params - length params mod ?per = length params div ?per * ?per"
    by (simp add: minus_mod_eq_div_mult)
  have "length params div ?per * ?per + length params mod ?per = length params"
    by simp
  with assms(2) have "length params div ?per * ?per < length params"
    by linarith
  then show ?thesis
    using create_ansatz_closed_form [OF assms(1), of params] whole_layers_take [OF assms(1), of params]
    by (simp add: cut length_concat_layers)
qed

theorem create_ansatz_tolerates_mismatch_witness:
  "(0 :: nat) < 2 \<and> length [1, 2, 3, 4, 5 :: real] mod params_per_layer 2 \<noteq> 0 \<and>
   create_ansatz 2 [1, 2, 3, 4, 5] = Inr [H 0, H 1, Rx 1 0, Rx 2 1, ZZPow (3 / pi) 0 1] \<and>
   create_ansatz 2 [1, 2, 3] = Inr [H 0, H 1, Rx 1 0, Rx 2 1, ZZPow (3 / pi) 0 1]"
  using create_ansatz_tolerates_mismatch [of 2 "[1, 2, 3, 4, 5]"]
  by (simp add: params_per_layer_def layer_gates_def qubit_pairs_def upt_rec enumerate_eq_zip)


subsection \<open>The sampled energy\<close>

lemma enumerate_as_indices: "enumerate 0 bs = map (\<lambda>i. (i, bs ! i)) [0..<length bs]"
  by (rule nth_equalityI) (simp_all add: nth_enumerate_eq)

lemma bit_sign:
  "b = 0 \<or> b = Suc 0 \<Longrightarrow> a * (- 1 :: int64) ^ b = word_of_int (sint a * (if b = 0 then 1 else - 1))"
  by auto

lemma shot_cost_spins:
  assumes len: "length bs = length numbers" and bits: "\<forall>b \<in> set bs. b = 0 \<or> b = 1"
  shows "shot_cost numbers bs =
     Inr (word_of_int ((\<Sum>i<length numbers. sint (numbers ! i) * (if bs ! i = 0 then 1 else - 1))\<^sup>2))"
proof -
  have "map (\<lambda>i. numbers ! i * (- 1) ^ (bs ! i)) [0..<length numbers] =
      map (\<lambda>i. word_of_int (sint (numbers ! i) * (if bs ! i = 0 then 1 else - 1))) [0..<length numbers]"
  proof (rule map_cong)
    fix i assume "i \<in> set [0..<length numbers]"
    with len have "bs ! i \<in> set bs" by simp
    with bits have "bs ! i = 0 \<or> bs ! i = Suc 0" by auto
    then show "numbers ! i * (- 1) ^ (bs ! i) =
        word_of_int (sint (numbers ! i) * (if bs ! i = 0 then 1 else - 1))"
      by (rule bit_sign)
  qed simp
  then have "sum_list (map (\<lambda>i. numbers ! i * (- 1) ^ (bs ! i)) [0..<length numbers]) =
      word_of_int (\<Sum>i<length numbers. sint (numbers ! i) * (if bs ! i = 0 then 1 else - 1))"
    by (simp only: word_sum_list interv_sum_list_conv_sum_set_nat atLeast0LessThan set_upt)
  then show ?thesis
    by (simp add: shot_cost_def len enumerate_as_indices comp_def power2_eq_square)
qed

lemma shot_costs_spins:
  assumes "\<forall>bs \<in> set ms. length bs = length numbers \<and> (\<forall>b \<in> set bs. b = 0 \<or> b = 1)"
  shows "shot_costs numbers ms =
     Inr (map (\<lambda>bs. word_of_int
       ((\<Sum>i<length numbers. sint (numbers ! i) * (if bs ! i = 0 then 1 else - 1))\<^sup>2)) ms)"
  using assms by (induction ms) (simp_all add: shot_cost_spins)

lemma energy_wrapped:
  assumes nonempty: "ms \<noteq> []"
    and shots: "\<forall>bs \<in> set ms. length bs = length numbers \<and> (\<forall>b \<in> set bs. b = 0 \<or> b = 1)"
  shows "energy_from_measurements numbers ms =
     Inr (Finite ((\<Sum>bs\<leftarrow>ms. real_of_int (signed_take_bit 63
       ((\<Sum>i<length numbers. sint (numbers ! i) * (if bs ! i = 0 then 1 else - 1))\<^sup>2)))
         / real (length ms)))"
proof -
  let ?c = "\<lambda>bs. (word_of_int
      ((\<Sum>i<length numbers. sint (numbers ! i) * (if bs ! i = 0 then 1 else - 1))\<^sup>2) :: int64)"
  from nonempty have "map ?c ms \<noteq> []" by simp
  then have "np_mean (map ?c ms) =
      Finite (sum_list (map (\<lambda>c. real_of_int (sint c)) (map ?c ms)) / real (length (map ?c ms)))"
    by (simp only: np_mean_def if_False)
  also have "\<dots> = Finite ((\<Sum>bs\<leftarrow>ms. real_of_int (signed_take_bit 63
       ((\<Sum>i<length numbers. sint (numbers ! i) * (if bs ! i = 0 then 1 else - 1))\<^sup>2)))
         / real (length ms))"
    by (simp only: map_map comp_def sint_wrapped length_map)
  finally show ?thesis
    by (simp only: energy_from_measurements_def shot_costs_spins [OF shots] sum.case)
qed

lemma energy_exact:
  assumes nonempty: "ms \<noteq> []"
    and shots: "\<forall>bs \<in> set ms. length bs = length numbers \<and> (\<forall>b \<in> set bs. b = 0 \<or> b = 1)"
    and bound: "\<forall>bs \<in> set ms.
       (\<Sum>i<length numbers. sint (numbers ! i) * (if bs ! i = 0 then 1 else - 1))\<^sup>2 < 2 ^ 63"
  shows "energy_from_measurements numbers ms =
     Inr (Finite (real_of_int
       (\<Sum>bs\<leftarrow>ms. (\<Sum>i<length numbers. sint (numbers ! i) * (if bs ! i = 0 then 1 else - 1))\<^sup>2)
         / real (length ms)))"
proof -
  let ?S = "\<lambda>bs. \<Sum>i<length numbers. sint (numbers ! i) * (if bs ! i = 0 then 1 else - 1)"
  have "map (\<lambda>bs. real_of_int (sint (word_of_int ((?S bs)\<^sup>2) :: int64))) ms =
      map (\<lambda>bs. real_of_int ((?S bs)\<^sup>2)) ms"
  proof (rule map_cong)
    fix bs assume "bs \<in> set ms"
    with bound have "(?S bs)\<^sup>2 < 2 ^ 63" by blast
    then have "sint (word_of_int ((?S bs)\<^sup>2) :: int64) = (?S bs)\<^sup>2"
      by (intro sint_nonneg_in_range) simp_all
    then show "real_of_int (sint (word_of_int ((?S bs)\<^sup>2) :: int64)) = real_of_int ((?S bs)\<^sup>2)"
      by (simp only:)
  qed simp
  then have "(\<Sum>bs\<leftarrow>ms. real_of_int (sint (word_of_int ((?S bs)\<^sup>2) :: int64))) =
      real_of_int (\<Sum>bs\<leftarrow>ms. (?S bs)\<^sup>2)"
    by (simp only: sum_list_of_int [symmetric] map_map comp_def)
  then show ?thesis
    using nonempty
    by (simp add: energy_from_measurements_def shot_costs_spins [OF shots] np_mean_def comp_def)
qed

text \<open>
  C2 (as stated: the estimate is the mean of \<open>S\<^sup>2\<close> for every batch). The square is computed
  in 64-bit arithmetic: for the single number \<open>4294967296\<close> and the single shot \<open>0\<close> the
  signed sum is \<open>S = 4294967296\<close> and \<open>S\<^sup>2 = 2\<^sup>6\<^sup>4\<close>, but the estimate is \<open>0\<close>.
\<close>

theorem sampled_energy_overflow_counterexample:
  "energy_from_measurements [4294967296] [[0]] = Inr (Finite 0) \<and>
   (sint (4294967296 :: int64) * 1)\<^sup>2 = 18446744073709551616"
  by (simp add: energy_from_measurements_def shot_cost_def np_mean_def)

text \<open>
  C2 (amended). For every non-empty batch of shots, each a string of bits \<open>0\<close> or \<open>1\<close> with
  one bit for every number, the sampled energy is the arithmetic mean over the shots of
  \<open>S\<^sup>2\<close> reduced to a signed 64-bit value, where \<open>S\<close> is the sum of the numbers, each taken
  with sign \<open>+1\<close> when its bit is \<open>0\<close> and \<open>-1\<close> otherwise; whenever \<open>S\<^sup>2\<close> is below \<open>2\<^sup>6\<^sup>3\<close> for
  every shot of the batch, it is the mean of \<open>S\<^sup>2\<close> itself. \<open>objective\<close> returns this value for
  the batch the sampler draws, and nothing (in particular not the constant term) is added
  to it.
\<close>

theorem sampled_energy_is_mean:
  assumes nonempty: "ms \<noteq> []"
    and shots: "\<forall>bs \<in> set ms. length bs = length numbers \<and> (\<forall>b \<in> set bs. b = 0 \<or> b = 1)"
    and drawn: "run \<gamma> \<beta> 500 = ms"
  shows "energy_from_measurements numbers ms =
     Inr (Finite ((\<Sum>bs\<leftarrow>ms. real_of_int (signed_take_bit 63
       ((\<Sum>i<length numbers. sint (numbers ! i) * (if bs ! i = 0 then 1 else - 1))\<^sup>2)))
         / real (length ms))) \<and>
     objective run numbers [\<gamma>, \<beta>] = energy_from_measurements numbers ms \<and>
     ((\<forall>bs \<in> set ms.
         (\<Sum>i<length numbers. sint (numbers ! i) * (if bs ! i = 0 then 1 else - 1))\<^sup>2 < 2 ^ 63) \<longrightarrow>
      energy_from_measurements numbers ms =
        Inr (Finite (real_of_int
          (\<Sum>bs\<leftarrow>ms. (\<Sum>i<length numbers. sint (numbers ! i) * (if bs ! i = 0 then 1 else - 1))\<^sup>2)
            / real (length ms))) \<and>
      objective run numbers [\<gamma>, \<beta>] =
        Inr (Finite (real_of_int
          (\<Sum>bs\<leftarrow>ms. (\<Sum>i<length numbers. sint (numbers ! i) * (if bs ! i = 0 then 1 else - 1))\<^sup>2)
            / real (length ms))))"
proof -
  have "objective run numbers [\<gamma>, \<beta>] = energy_from_measurements numbers ms"
    using drawn by (simp add: objective_def)
  then show ?thesis
    using energy_wrapped [OF nonempty shots] energy_exact [OF nonempty shots]
    by (simp only: simp_thms) blast
qed

theorem sampled_energy_is_mean_witness:
  "energy_from_measurements [3, 5] [[0, 1], [1, 0]] = Inr (Finite 4) \<and>
   objective (\<lambda>\<gamma> \<beta> n. [[0, 1], [1, 0]]) [3, 5] [1, 2] = Inr (Finite 4) \<and>
   constant_term [3, 5] = 34"
  using sampled_energy_is_mean [of "[[0, 1], [1, 0]]" "[3, 5]" "\<lambda>\<gamma> \<beta> n. [[0, 1], [1, 0]]" 1 2]
  by (simp add: lessThan_Suc numeral_2_eq_2 constant_term_def)


subsection \<open>The exact energy at all-zero parameters\<close>

lemma set_basis_states: "set (basis_states n) = {bs. length bs = n}"
proof (induction n)
  case 0
  show ?case by auto
next
  case (Suc n)
  show ?case
  proof (rule set_eqI)
    fix bs :: "bool list"
    show "bs \<in> set (basis_states (Suc n)) \<longleftrightarrow> bs \<in> {bs. length bs = Suc n}"
      using Suc by (cases bs) (auto simp: image_iff)
  qed
qed

lemma distinct_basis_states: "distinct (basis_states n)"
  by (induction n) (auto simp: distinct_map)

lemma finite_basis: "finite {bs :: bool list. length bs = n}"
  using finite_set [of "basis_states n"] by (simp only: set_basis_states)

lemma sum_basis_states:
  fixes f :: "bool list \<Rightarrow> 'a :: comm_monoid_add"
  shows "sum_list (map f (basis_states n)) = sum f {bs. length bs = n}"
  by (simp add: sum_list_distinct_conv_sum_set distinct_basis_states set_basis_states)

lemma flip_reindex:
  fixes f :: "bool list \<Rightarrow> 'a :: comm_monoid_add"
  assumes "q < n"
  shows "(\<Sum>bs | length bs = n. f (bs[q := \<not> bs ! q])) = (\<Sum>bs | length bs = n. f bs)"
  by (rule sum.reindex_bij_witness [where i = "\<lambda>bs. bs[q := \<not> bs ! q]" and j = "\<lambda>bs. bs[q := \<not> bs ! q]"])
    (use assms in \<open>auto simp: list_update_same_conv\<close>)

lemma odd_sum_vanishes:
  fixes f :: "bool list \<Rightarrow> real"
  assumes "q < n" and "\<And>bs. length bs = n \<Longrightarrow> f (bs[q := \<not> bs ! q]) = - f bs"
  shows "(\<Sum>bs | length bs = n. f bs) = 0"
proof -
  have "(\<Sum>bs | length bs = n. f bs) = (\<Sum>bs | length bs = n. f (bs[q := \<not> bs ! q]))"
    using flip_reindex [OF assms(1), of f] by simp
  also have "\<dots> = (\<Sum>bs | length bs = n. - f bs)"
    by (rule sum.cong) (simp_all add: assms(2))
  also have "\<dots> = - (\<Sum>bs | length bs = n. f bs)"
    by (simp add: sum_negf)
  finally show ?thesis by simp
qed

lemma all_zero_state:
  "length bs = n \<Longrightarrow> bs = replicate n False \<longleftrightarrow> (\<forall>q. q < n \<longrightarrow> \<not> bs ! q)"
  by (auto simp: list_eq_iff_nth_eq)

lemma hadamard_prefix:
  assumes "k \<le> n" and "length bs = n"
  shows "foldl (\<lambda>\<psi> g. apply_gate g \<psi>) (initial_state n) (map H [0..<k]) bs =
     (if \<forall>q. k \<le> q \<and> q < n \<longrightarrow> \<not> bs ! q then 1 / complex_of_real (sqrt 2) ^ k else 0)"
  using assms
proof (induction k arbitrary: bs)
  case 0
  then show ?case by (simp add: initial_state_def all_zero_state)
next
  case (Suc k)
  let ?\<psi> = "foldl (\<lambda>\<psi> g. apply_gate g \<psi>) (initial_state n) (map H [0..<k])"
  from Suc.prems have k: "k < n" and len: "length bs = n" by simp_all
  have set_bit: "?\<psi> (bs[k := True]) = 0"
  proof -
    have "\<not> (\<forall>q. k \<le> q \<and> q < n \<longrightarrow> \<not> bs[k := True] ! q)"
      using k len by (auto intro: exI [of _ k])
    with Suc.IH [of "bs[k := True]"] k len show ?thesis by simp
  qed
  have clear: "(\<forall>q. k \<le> q \<and> q < n \<longrightarrow> \<not> bs[k := False] ! q) \<longleftrightarrow>
      (\<forall>q. Suc k \<le> q \<and> q < n \<longrightarrow> \<not> bs ! q)"
  proof
    assume a: "\<forall>q. k \<le> q \<and> q < n \<longrightarrow> \<not> bs[k := False] ! q"
    show "\<forall>q. Suc k \<le> q \<and> q < n \<longrightarrow> \<not> bs ! q"
    proof (intro allI impI)
      fix q assume q: "Suc k \<le> q \<and> q < n"
      then have range: "k \<le> q \<and> q < n" and other: "k \<noteq> q" by auto
      from a range have "\<not> bs[k := False] ! q" by blast
      with other show "\<not> bs ! q" by simp
    qed
  next
    assume a: "\<forall>q. Suc k \<le> q \<and> q < n \<longrightarrow> \<not> bs ! q"
    show "\<forall>q. k \<le> q \<and> q < n \<longrightarrow> \<not> bs[k := False] ! q"
    proof (intro allI impI)
      fix q assume q: "k \<le> q \<and> q < n"
      show "\<not> bs[k := False] ! q"
      proof (cases "q = k")
        case True
        with k len show ?thesis by simp
      next
        case False
        with q a show ?thesis by simp
      qed
    qed
  qed
  have clear_bit: "?\<psi> (bs[k := False]) =
      (if \<forall>q. Suc k \<le> q \<and> q < n \<longrightarrow> \<not> bs ! q then 1 / complex_of_real (sqrt 2) ^ k else 0)"
    using Suc.IH [of "bs[k := False]"] k len by (simp only: clear) simp
  have step: "foldl (\<lambda>\<psi> g. apply_gate g \<psi>) (initial_state n) (map H [0..<Suc k]) bs =
      ?\<psi> (bs[k := False]) / complex_of_real (sqrt 2)"
    by (simp add: set_bit)
  show ?case unfolding step clear_bit by simp
qed

lemma uniform_superposition:
  assumes "length bs = n"
  shows "simulate n (map H [0..<n]) bs = 1 / complex_of_real (sqrt 2) ^ n"
  using hadamard_prefix [OF le_refl assms] by (simp add: simulate_def)

lemma rx_zero: "apply_gate (Rx 0 q) \<psi> = \<psi>"
  by (simp add: fun_eq_iff)

lemma zzpow_zero: "apply_gate (ZZPow 0 i j) \<psi> = \<psi>"
  by (simp add: fun_eq_iff)

lemma identity_gates:
  "(\<And>g \<psi>. g \<in> set gs \<Longrightarrow> apply_gate g \<psi> = \<psi>) \<Longrightarrow>
     foldl (\<lambda>\<psi> g. apply_gate g \<psi>) \<psi>0 gs = \<psi>0"
  by (induction gs arbitrary: \<psi>0) simp_all

lemma zero_layer_gate:
  assumes "base + params_per_layer n \<le> m" and "g \<in> set (layer_gates n (replicate m 0) base)"
  shows "apply_gate g \<psi> = \<psi>"
proof -
  from assms(2) consider
    i where "i < n" "g = Rx (replicate m 0 ! (base + i)) i"
    | k i j where "k < length (qubit_pairs n)" "g = ZZPow (replicate m 0 ! (base + n + k) / pi) i j"
    by (auto simp: layer_gates_def in_set_enumerate_eq)
  then show ?thesis
  proof cases
    case 1
    with assms(1) have "base + i < m" by (simp add: params_per_layer_def)
    with 1 have "g = Rx 0 i" by simp
    then show ?thesis by (simp only: rx_zero)
  next
    case 2
    with assms(1) have "base + n + k < m"
      by (simp add: params_per_layer_def length_qubit_pairs)
    with 2 have "g = ZZPow 0 i j" by simp
    then show ?thesis by (simp only: zzpow_zero)
  qed
qed

lemma zero_parameters_state:
  assumes "0 < n"
  shows "\<exists>c. create_ansatz n (replicate m 0) = Inr c \<and> simulate n c = simulate n (map H [0..<n])"
proof -
  let ?per = "params_per_layer n"
  let ?L = "length (replicate m (0 :: real)) div ?per"
  let ?layers = "concat (map (\<lambda>l. layer_gates n (replicate m 0) (l * ?per)) [0..<?L])"
  have inert: "apply_gate g \<psi> = \<psi>" if "g \<in> set ?layers" for g \<psi>
  proof -
    from that obtain l where l: "l < ?L" and g: "g \<in> set (layer_gates n (replicate m 0) (l * ?per))"
      by auto
    from l have "Suc l * ?per \<le> ?L * ?per"
      by (intro mult_le_mono1) simp
    also have "\<dots> \<le> m" by simp
    finally have "l * ?per + ?per \<le> m" by simp
    from zero_layer_gate [OF this g] show ?thesis .
  qed
  have "foldl (\<lambda>\<psi> g. apply_gate g \<psi>) \<psi>0 ?layers = \<psi>0" for \<psi>0
    by (rule identity_gates) (rule inert)
  then have "simulate n (map H [0..<n] @ ?layers) = simulate n (map H [0..<n])"
    by (simp only: simulate_def foldl_append)
  with create_ansatz_closed_form [OF assms, of "replicate m 0"] show ?thesis
    by blast
qed

lemma z_sign_flip:
  assumes "i < length bs"
  shows "z_sign (bs[i := \<not> bs ! i]) i = - z_sign bs i"
    and "j \<noteq> i \<Longrightarrow> z_sign (bs[i := \<not> bs ! i]) j = z_sign bs j"
  using assms by (simp_all add: z_sign_def)

lemma zz_expectation_sum:
  "zz_expectation n \<psi> i j =
     (\<Sum>bs | length bs = n. Re (cnj (\<psi> bs) * (z_sign bs i * z_sign bs j * \<psi> bs)))"
  by (simp add: zz_expectation_def sum_basis_states)

lemma zz_uniform_vanishes:
  assumes "i < n" and "i \<noteq> j" and uniform: "\<And>bs. length bs = n \<Longrightarrow> \<psi> bs = a"
  shows "zz_expectation n \<psi> i j = 0"
  unfolding zz_expectation_sum
proof (rule odd_sum_vanishes [OF assms(1)])
  fix bs :: "bool list"
  assume len: "length bs = n"
  then have "\<psi> (bs[i := \<not> bs ! i]) = a" "\<psi> bs = a"
    by (simp_all add: uniform)
  moreover from len assms(1,2) have "z_sign (bs[i := \<not> bs ! i]) i = - z_sign bs i"
    "z_sign (bs[i := \<not> bs ! i]) j = z_sign bs j"
    by (simp_all add: z_sign_flip)
  ultimately show "Re (cnj (\<psi> (bs[i := \<not> bs ! i])) *
        (z_sign (bs[i := \<not> bs ! i]) i * z_sign (bs[i := \<not> bs ! i]) j * \<psi> (bs[i := \<not> bs ! i]))) =
      - Re (cnj (\<psi> bs) * (z_sign bs i * z_sign bs j * \<psi> bs))"
    by simp
qed

lemma energy_loop:
  "foldl (\<lambda>energy (i, j). energy + w i j) e ps = e + sum_list (map (\<lambda>(i, j). w i j) ps)"
  for e :: real
  by (induction ps arbitrary: e) (auto simp: algebra_simps)

lemma set_qubit_pairs: "set (qubit_pairs n) = {(i, j). i < j \<and> j < n}"
  by (fastforce simp: qubit_pairs_def)








lemma zero_parameters_constant:
  assumes "numbers \<noteq> []"
  shows "\<exists>c. create_ansatz (length numbers) (replicate m 0) = Inr c \<and>
     (\<forall>i j. i < j \<and> j < length numbers \<longrightarrow>
        zz_expectation (length numbers) (simulate (length numbers) c) i j = 0) \<and>
     expectation_value numbers (replicate m 0) = Inr (real_of_int (sint (constant_term numbers)))"
proof -
  let ?n = "length numbers"
  from assms have "0 < ?n" by simp
  from zero_parameters_state [OF this, of m] obtain c
    where c: "create_ansatz ?n (replicate m 0) = Inr c"
      and state: "simulate ?n c = simulate ?n (map H [0..<?n])"
    by blast
  have zero: "zz_expectation ?n (simulate ?n c) i j = 0" if "i < j \<and> j < ?n" for i j
  proof (rule zz_uniform_vanishes)
    from that show "i < ?n" "i \<noteq> j" by simp_all
    show "simulate ?n c bs = 1 / complex_of_real (sqrt 2) ^ ?n" if "length bs = ?n" for bs
      using that by (simp add: state uniform_superposition)
  qed
  have "map (\<lambda>(i, j). real_of_int (sint (2 * numbers ! i * numbers ! j)) *
        zz_expectation ?n (simulate ?n c) i j) (qubit_pairs ?n) =
      map (\<lambda>p. 0) (qubit_pairs ?n)"
    by (rule map_cong) (auto simp: set_qubit_pairs zero)
  then have "sum_list (map (\<lambda>(i, j). real_of_int (sint (2 * numbers ! i * numbers ! j)) *
        zz_expectation ?n (simulate ?n c) i j) (qubit_pairs ?n)) = 0"
    by (simp only: sum_list_0)
  then have "expectation_value numbers (replicate m 0) =
      Inr (real_of_int (sint (constant_term numbers)))"
    by (simp only: expectation_value_def Let_def c sum.case energy_loop constant_term_def
        add_0_right)
  with c zero show ?thesis by blast
qed






subsection \<open>The exact energy\<close>

lemma total_probability_sum:
  "total_probability n \<psi> = (\<Sum>bs | length bs = n. (cmod (\<psi> bs))\<^sup>2)"
  by (simp add: total_probability_def sum_basis_states)

lemma initial_state_normalised: "total_probability n (initial_state n) = 1"
proof -
  have "(\<Sum>bs | length bs = n. (cmod (initial_state n bs))\<^sup>2) =
      (\<Sum>bs | length bs = n. if bs = replicate n False then 1 else 0)"
    by (rule sum.cong) (simp_all add: initial_state_def)
  also have "\<dots> = 1"
    by (simp add: finite_basis)
  finally show ?thesis by (simp only: total_probability_sum)
qed

lemma cmod_add_square:
  "(cmod (x + y))\<^sup>2 = (cmod x)\<^sup>2 + (cmod y)\<^sup>2 + 2 * Re (x * cnj y)"
  unfolding cmod_power2 by (simp add: power2_eq_square algebra_simps)

lemma flip_twice: "q < length bs \<Longrightarrow> (bs[q := \<not> bs ! q])[q := \<not> bs[q := \<not> bs ! q] ! q] = bs"
  by (simp add: list_update_same_conv)

lemma hadamard_pointwise:
  "(cmod (apply_gate (H q) \<psi> bs))\<^sup>2 =
     ((cmod (\<psi> (bs[q := False])))\<^sup>2 + (cmod (\<psi> (bs[q := True])))\<^sup>2) / 2 +
     (if bs ! q then - 1 else 1) * Re (\<psi> (bs[q := False]) * cnj (\<psi> (bs[q := True])))"
  by (simp add: norm_divide power_divide cmod_add_square norm_mult add_divide_distrib)

lemma hadamard_preserves:
  assumes "q < n"
  shows "total_probability n (apply_gate (H q) \<psi>) = total_probability n \<psi>"
proof -
  let ?flip = "\<lambda>bs :: bool list. bs[q := \<not> bs ! q]"
  let ?N = "\<Sum>bs | length bs = n. (cmod (\<psi> bs))\<^sup>2"
  have pair: "(cmod (\<psi> (bs[q := False])))\<^sup>2 + (cmod (\<psi> (bs[q := True])))\<^sup>2 =
      (cmod (\<psi> bs))\<^sup>2 + (cmod (\<psi> (?flip bs)))\<^sup>2" if "length bs = n" for bs
  proof (cases "bs ! q")
    case True
    then have "bs[q := True] = bs" by (metis list_update_id)
    with True show ?thesis by simp
  next
    case False
    then have "bs[q := False] = bs" by (metis list_update_id)
    with False show ?thesis by simp
  qed
  have cross: "(\<Sum>bs | length bs = n.
      (if bs ! q then - 1 else 1) * Re (\<psi> (bs[q := False]) * cnj (\<psi> (bs[q := True])))) = 0"
    by (rule odd_sum_vanishes [OF assms]) (use assms in auto)
  have "(\<Sum>bs | length bs = n. (cmod (apply_gate (H q) \<psi> bs))\<^sup>2) =
      (\<Sum>bs | length bs = n. ((cmod (\<psi> bs))\<^sup>2 + (cmod (\<psi> (?flip bs)))\<^sup>2) / 2 +
        (if bs ! q then - 1 else 1) * Re (\<psi> (bs[q := False]) * cnj (\<psi> (bs[q := True]))))"
    by (rule sum.cong) (simp_all only: hadamard_pointwise pair mem_Collect_eq)
  also have "\<dots> =
      (\<Sum>bs | length bs = n. ((cmod (\<psi> bs))\<^sup>2 + (cmod (\<psi> (?flip bs)))\<^sup>2) / 2) +
      (\<Sum>bs | length bs = n.
        (if bs ! q then - 1 else 1) * Re (\<psi> (bs[q := False]) * cnj (\<psi> (bs[q := True]))))"
    by (rule sum.distrib)
  also have "\<dots> = (\<Sum>bs | length bs = n. (cmod (\<psi> bs))\<^sup>2 + (cmod (\<psi> (?flip bs)))\<^sup>2) / 2"
    by (simp only: cross add_0_right sum_divide_distrib)
  also have "\<dots> = (?N + (\<Sum>bs | length bs = n. (cmod (\<psi> (?flip bs)))\<^sup>2)) / 2"
    by (simp only: sum.distrib)
  also have "\<dots> = (?N + ?N) / 2"
    by (simp only: flip_reindex [OF assms, of "\<lambda>bs. (cmod (\<psi> bs))\<^sup>2"])
  also have "\<dots> = ?N"
    by simp
  finally show ?thesis by (simp only: total_probability_sum)
qed

lemma rx_pointwise:
  "(cmod (apply_gate (Rx \<theta> q) \<psi> bs))\<^sup>2 =
     (cos (\<theta> / 2))\<^sup>2 * (cmod (\<psi> bs))\<^sup>2 +
     (sin (\<theta> / 2))\<^sup>2 * (cmod (\<psi> (bs[q := \<not> bs ! q])))\<^sup>2 +
     2 * cos (\<theta> / 2) * sin (\<theta> / 2) *
       (Re (\<psi> bs) * Im (\<psi> (bs[q := \<not> bs ! q])) - Im (\<psi> bs) * Re (\<psi> (bs[q := \<not> bs ! q])))"
  unfolding cmod_power2 by (simp add: power2_eq_square algebra_simps)

lemma rx_preserves:
  assumes "q < n"
  shows "total_probability n (apply_gate (Rx \<theta> q) \<psi>) = total_probability n \<psi>"
proof -
  let ?flip = "\<lambda>bs :: bool list. bs[q := \<not> bs ! q]"
  let ?N = "\<Sum>bs | length bs = n. (cmod (\<psi> bs))\<^sup>2"
  let ?c = "cos (\<theta> / 2)" and ?s = "sin (\<theta> / 2)"
  let ?h = "\<lambda>bs. 2 * ?c * ?s * (Re (\<psi> bs) * Im (\<psi> (?flip bs)) - Im (\<psi> bs) * Re (\<psi> (?flip bs)))"
  have cross: "(\<Sum>bs | length bs = n. ?h bs) = 0"
  proof (rule odd_sum_vanishes [OF assms])
    fix bs :: "bool list" assume "length bs = n"
    with assms have "?flip (?flip bs) = bs" by (simp add: flip_twice)
    then show "?h (?flip bs) = - ?h bs" by (simp add: algebra_simps)
  qed
  have "(\<Sum>bs | length bs = n. (cmod (apply_gate (Rx \<theta> q) \<psi> bs))\<^sup>2) =
      (\<Sum>bs | length bs = n. (?c\<^sup>2 * (cmod (\<psi> bs))\<^sup>2 + ?s\<^sup>2 * (cmod (\<psi> (?flip bs)))\<^sup>2) + ?h bs)"
    by (rule sum.cong) (simp_all only: rx_pointwise)
  also have "\<dots> = (\<Sum>bs | length bs = n. ?c\<^sup>2 * (cmod (\<psi> bs))\<^sup>2 + ?s\<^sup>2 * (cmod (\<psi> (?flip bs)))\<^sup>2) +
      (\<Sum>bs | length bs = n. ?h bs)"
    by (rule sum.distrib)
  also have "\<dots> = (\<Sum>bs | length bs = n. ?c\<^sup>2 * (cmod (\<psi> bs))\<^sup>2) +
      (\<Sum>bs | length bs = n. ?s\<^sup>2 * (cmod (\<psi> (?flip bs)))\<^sup>2)"
    by (simp only: cross add_0_right sum.distrib)
  also have "\<dots> = ?c\<^sup>2 * ?N + ?s\<^sup>2 * (\<Sum>bs | length bs = n. (cmod (\<psi> (?flip bs)))\<^sup>2)"
    by (simp only: sum_distrib_left)
  also have "\<dots> = ?c\<^sup>2 * ?N + ?s\<^sup>2 * ?N"
    by (simp only: flip_reindex [OF assms, of "\<lambda>bs. (cmod (\<psi> bs))\<^sup>2"])
  also have "\<dots> = (?c\<^sup>2 + ?s\<^sup>2) * ?N"
    by (simp only: distrib_right)
  also have "\<dots> = ?N"
    by simp
  finally show ?thesis by (simp only: total_probability_sum)
qed

lemma zzpow_preserves:
  "total_probability n (apply_gate (ZZPow t i j) \<psi>) = total_probability n \<psi>"
proof -
  have "(cmod (apply_gate (ZZPow t i j) \<psi> bs))\<^sup>2 = (cmod (\<psi> bs))\<^sup>2" for bs
    by (simp add: norm_mult)
  then show ?thesis by (simp only: total_probability_def)
qed

lemma gate_preserves:
  "gate_in_range n g \<Longrightarrow> total_probability n (apply_gate g \<psi>) = total_probability n \<psi>"
  by (cases g) (simp_all only: gate_in_range.simps hadamard_preserves rx_preserves zzpow_preserves)

lemma circuit_preserves:
  "\<forall>g \<in> set c. gate_in_range n g \<Longrightarrow>
     total_probability n (foldl (\<lambda>\<psi> g. apply_gate g \<psi>) \<psi> c) = total_probability n \<psi>"
  by (induction c arbitrary: \<psi>) (simp_all add: gate_preserves)

lemma simulate_normalised:
  "\<forall>g \<in> set c. gate_in_range n g \<Longrightarrow> total_probability n (simulate n c) = 1"
  by (simp only: simulate_def circuit_preserves initial_state_normalised)

lemma layer_gates_in_range:
  assumes "g \<in> set (layer_gates n params base)"
  shows "gate_in_range n g"
proof -
  from assms consider
    i where "i < n" "g = Rx (params ! (base + i)) i"
    | k i j where "(k, i, j) \<in> set (enumerate 0 (qubit_pairs n))"
        "g = ZZPow (params ! (base + n + k) / pi) i j"
    by (auto simp: layer_gates_def)
  then show ?thesis
  proof cases
    case 1
    then show ?thesis by simp
  next
    case 2
    then have "k < length (qubit_pairs n)" and "qubit_pairs n ! k = (i, j)"
      by (auto simp: in_set_enumerate_eq)
    then have "(i, j) \<in> set (qubit_pairs n)"
      using nth_mem [of k "qubit_pairs n"] by simp
    then have "i < j \<and> j < n" by (simp add: set_qubit_pairs)
    with 2 show ?thesis by simp
  qed
qed

lemma ansatz_gates_in_range:
  assumes "create_ansatz n params = Inr c"
  shows "\<forall>g \<in> set c. gate_in_range n g"
proof (cases "n = 0")
  case True
  with assms show ?thesis by (simp add: create_ansatz_def params_per_layer_def)
next
  case False
  then have "0 < n" by simp
  from create_ansatz_closed_form [OF this, of params] assms
  have "c = map H [0..<n] @
      concat (map (\<lambda>l. layer_gates n params (l * params_per_layer n))
                [0..<length params div params_per_layer n])"
    by simp
  then show ?thesis
    by (auto dest: layer_gates_in_range)
qed

lemma zz_expectation_bounded:
  "\<bar>zz_expectation n \<psi> i j\<bar> \<le> total_probability n \<psi>"
proof -
  have "\<bar>Re (cnj (\<psi> bs) * (z_sign bs i * z_sign bs j * \<psi> bs))\<bar> \<le> (cmod (\<psi> bs))\<^sup>2" for bs
  proof -
    define w where "w = cnj (\<psi> bs) * (z_sign bs i * z_sign bs j * \<psi> bs)"
    define r where "r = (cmod (\<psi> bs))\<^sup>2"
    define zz where "zz = z_sign bs i * z_sign bs j"
    have "cnj (\<psi> bs) * (z_sign bs i * z_sign bs j * \<psi> bs) =
        (z_sign bs i * z_sign bs j) * (\<psi> bs * cnj (\<psi> bs))"
      by (simp only: mult_ac)
    then have w: "w = zz * complex_of_real r"
      by (simp only: complex_norm_square w_def r_def zz_def)
    have r: "0 \<le> r" by (simp add: r_def)
    have "zz = 1 \<or> zz = - 1"
      by (simp add: zz_def z_sign_def)
    then have "Re w = r \<or> Re w = - r"
      using w by auto
    with r have "\<bar>Re w\<bar> \<le> r" by auto
    then show ?thesis by (simp only: w_def r_def)
  qed
  then have "\<bar>\<Sum>bs | length bs = n. Re (cnj (\<psi> bs) * (z_sign bs i * z_sign bs j * \<psi> bs))\<bar> \<le>
      (\<Sum>bs | length bs = n. (cmod (\<psi> bs))\<^sup>2)"
    by (intro order_trans [OF sum_abs] sum_mono)
  then show ?thesis
    by (simp only: zz_expectation_sum total_probability_sum)
qed


lemma sum_list_index_pairs:
  fixes f :: "nat \<Rightarrow> nat \<Rightarrow> real"
  shows "sum_list (map (\<lambda>(i, j). f i j) (concat (map (\<lambda>i. map (Pair i) (g i)) xs))) =
     sum_list (map (\<lambda>i. sum_list (map (f i) (g i))) xs)"
  by (induction xs) (simp_all add: comp_def)

lemma sum_qubit_pairs:
  fixes f :: "nat \<Rightarrow> nat \<Rightarrow> real"
  shows "sum_list (map (\<lambda>(i, j). f i j) (qubit_pairs n)) = (\<Sum>i<n. \<Sum>j = i + 1..<n. f i j)"
  by (simp add: qubit_pairs_def sum_list_index_pairs interv_sum_list_conv_sum_set_nat
      atLeast0LessThan)


lemma zz_term:
  "Re (cnj (\<psi> bs) * (z_sign bs i * z_sign bs j * \<psi> bs)) =
     (if bs ! i = bs ! j then 1 else - 1) * (cmod (\<psi> bs))\<^sup>2"
proof -
  define r where "r = (cmod (\<psi> bs))\<^sup>2"
  define zz where "zz = z_sign bs i * z_sign bs j"
  have "cnj (\<psi> bs) * (z_sign bs i * z_sign bs j * \<psi> bs) =
      (z_sign bs i * z_sign bs j) * (\<psi> bs * cnj (\<psi> bs))"
    by (simp only: mult_ac)
  then have w: "cnj (\<psi> bs) * (z_sign bs i * z_sign bs j * \<psi> bs) = zz * complex_of_real r"
    by (simp only: complex_norm_square r_def zz_def)
  have "zz = (if bs ! i = bs ! j then 1 else - 1)"
    by (simp add: zz_def z_sign_def)
  then have "Re (zz * complex_of_real r) = (if bs ! i = bs ! j then 1 else - 1) * r"
    by simp
  then show ?thesis by (simp only: w r_def)
qed

lemma zz_expectation_parity:
  "zz_expectation n \<psi> i j =
     (\<Sum>bs | length bs = n. (if bs ! i = bs ! j then 1 else - 1) * (cmod (\<psi> bs))\<^sup>2)"
  by (simp only: zz_expectation_sum zz_term)

lemma square_of_sum:
  fixes f :: "nat \<Rightarrow> real"
  shows "(\<Sum>i<n. f i)\<^sup>2 = (\<Sum>i<n. (f i)\<^sup>2) + 2 * (\<Sum>i<n. \<Sum>j = i + 1..<n. f i * f j)"
proof (induction n)
  case 0
  show ?case by simp
next
  case (Suc n)
  have "(\<Sum>i<Suc n. \<Sum>j = i + 1..<Suc n. f i * f j) =
      (\<Sum>i<n. \<Sum>j = i + 1..<Suc n. f i * f j)"
    by simp
  also have "\<dots> = (\<Sum>i<n. (\<Sum>j = i + 1..<n. f i * f j) + f i * f n)"
    by (rule sum.cong) (simp_all add: atLeastLessThanSuc)
  also have "\<dots> = (\<Sum>i<n. \<Sum>j = i + 1..<n. f i * f j) + (\<Sum>i<n. f i) * f n"
    by (simp add: sum.distrib sum_distrib_right)
  finally have pairs: "(\<Sum>i<Suc n. \<Sum>j = i + 1..<Suc n. f i * f j) =
      (\<Sum>i<n. \<Sum>j = i + 1..<n. f i * f j) + (\<Sum>i<n. f i) * f n" .
  have "(\<Sum>i<Suc n. f i)\<^sup>2 = (\<Sum>i<n. f i)\<^sup>2 + 2 * (\<Sum>i<n. f i) * f n + (f n)\<^sup>2"
    by (simp add: power2_sum)
  then show ?case
    by (simp only: Suc.IH pairs) (simp add: algebra_simps)
qed

lemma expected_cost:
  fixes a :: "nat \<Rightarrow> real"
  assumes "total_probability n \<psi> = 1"
  shows "(\<Sum>bs | length bs = n.
       (cmod (\<psi> bs))\<^sup>2 * (\<Sum>i<n. a i * (if bs ! i then - 1 else 1))\<^sup>2) =
     (\<Sum>i<n. (a i)\<^sup>2) +
     (\<Sum>i<n. \<Sum>j = i + 1..<n. (2 * a i * a j) * zz_expectation n \<psi> i j)"
proof -
  let ?p = "\<lambda>bs. (cmod (\<psi> bs))\<^sup>2"
  let ?z = "\<lambda>bs i. if bs ! i then - 1 else (1 :: real)"
  let ?B = "{bs :: bool list. length bs = n}"
  have pointwise: "?p bs * (\<Sum>i<n. a i * ?z bs i)\<^sup>2 =
      ?p bs * (\<Sum>i<n. (a i)\<^sup>2) +
      (\<Sum>i<n. \<Sum>j = i + 1..<n. (2 * a i * a j) * ((if bs ! i = bs ! j then 1 else - 1) * ?p bs))" for bs
  proof -
    have "(\<Sum>i<n. (a i * ?z bs i)\<^sup>2) = (\<Sum>i<n. (a i)\<^sup>2)"
      by (rule sum.cong) (simp_all add: power_mult_distrib)
    moreover have "(\<Sum>i<n. \<Sum>j = i + 1..<n. (a i * ?z bs i) * (a j * ?z bs j)) =
        (\<Sum>i<n. \<Sum>j = i + 1..<n. a i * a j * (if bs ! i = bs ! j then 1 else - 1))"
      by (intro sum.cong refl) simp
    ultimately have "(\<Sum>i<n. a i * ?z bs i)\<^sup>2 =
        (\<Sum>i<n. (a i)\<^sup>2) +
        2 * (\<Sum>i<n. \<Sum>j = i + 1..<n. a i * a j * (if bs ! i = bs ! j then 1 else - 1))"
      by (simp only: square_of_sum [of "\<lambda>i. a i * ?z bs i" n])
    then show ?thesis
      by (simp add: distrib_left sum_distrib_left mult_ac)
  qed
  have "(\<Sum>bs\<in>?B. ?p bs * (\<Sum>i<n. a i * ?z bs i)\<^sup>2) =
      (\<Sum>bs\<in>?B. ?p bs * (\<Sum>i<n. (a i)\<^sup>2)) +
      (\<Sum>bs\<in>?B. \<Sum>i<n. \<Sum>j = i + 1..<n.
         (2 * a i * a j) * ((if bs ! i = bs ! j then 1 else - 1) * ?p bs))"
    by (simp only: pointwise sum.distrib)
  also have "(\<Sum>bs\<in>?B. ?p bs * (\<Sum>i<n. (a i)\<^sup>2)) = (\<Sum>i<n. (a i)\<^sup>2)"
    using assms by (simp add: sum_distrib_right [symmetric] total_probability_sum)
  also have "(\<Sum>bs\<in>?B. \<Sum>i<n. \<Sum>j = i + 1..<n.
         (2 * a i * a j) * ((if bs ! i = bs ! j then 1 else - 1) * ?p bs)) =
      (\<Sum>i<n. \<Sum>bs\<in>?B. \<Sum>j = i + 1..<n.
         (2 * a i * a j) * ((if bs ! i = bs ! j then 1 else - 1) * ?p bs))"
    by (rule sum.swap)
  also have "\<dots> = (\<Sum>i<n. \<Sum>j = i + 1..<n. \<Sum>bs\<in>?B.
         (2 * a i * a j) * ((if bs ! i = bs ! j then 1 else - 1) * ?p bs))"
    by (intro sum.cong refl sum.swap)
  also have "\<dots> = (\<Sum>i<n. \<Sum>j = i + 1..<n. (2 * a i * a j) * zz_expectation n \<psi> i j)"
    by (simp only: zz_expectation_parity sum_distrib_left)
  finally show ?thesis .
qed

lemma bell_circuit:
  "create_ansatz 2 [0, 0, pi / 2, pi / 2, 0, 0] =
     Inr [H 0, H 1, Rx 0 0, Rx 0 1, ZZPow (1 / 2) 0 1, Rx (pi / 2) 0, Rx 0 1, ZZPow 0 0 1]"
  by (simp add: create_ansatz_def params_per_layer_def qubit_pairs_def upt_rec numeral_2_eq_2)

lemma bell_state:
  assumes "length bs = 2"
  shows "simulate 2 [H 0, H 1, Rx 0 0, Rx 0 1, ZZPow (1 / 2) 0 1, Rx (pi / 2) 0, Rx 0 1, ZZPow 0 0 1] bs =
     (if bs ! 0 = bs ! 1 then complex_of_real (sqrt 2 / 2) else 0)"
proof -
  define \<psi> where "\<psi> = simulate 2 [H 0, H 1]"
  have hs: "[H 0, H 1] = map H [0..<2]"
    by (simp add: upt_rec numeral_2_eq_2)
  have two: "complex_of_real (sqrt 2) ^ 2 = 2"
    by (simp flip: of_real_power)
  have u: "\<psi> xs = 1 / 2" if "length xs = 2" for xs
    using uniform_superposition [OF that] by (simp only: \<psi>_def hs two)
  have split: "simulate 2 [H 0, H 1, Rx 0 0, Rx 0 1, ZZPow (1 / 2) 0 1, Rx (pi / 2) 0, Rx 0 1, ZZPow 0 0 1] =
      apply_gate (Rx (pi / 2) 0) (apply_gate (ZZPow (1 / 2) 0 1) \<psi>)"
    by (simp only: simulate_def foldl_Cons foldl_Nil rx_zero zzpow_zero \<psi>_def)
  show ?thesis
    unfolding split using assms
    by (simp add: u cos_45 sin_45 cis_pi_half)
qed


lemma bell_correlation:
  "zz_expectation 2
     (simulate 2 [H 0, H 1, Rx 0 0, Rx 0 1, ZZPow (1 / 2) 0 1, Rx (pi / 2) 0, Rx 0 1, ZZPow 0 0 1])
     0 1 = 1"
proof -
  define \<psi> where
    "\<psi> = simulate 2 [H 0, H 1, Rx 0 0, Rx 0 1, ZZPow (1 / 2) 0 1, Rx (pi / 2) 0, Rx 0 1, ZZPow 0 0 1]"
  have \<psi>: "\<psi> bs = (if bs ! 0 = bs ! 1 then complex_of_real (sqrt 2 / 2) else 0)"
    if "length bs = 2" for bs
    unfolding \<psi>_def using that by (rule bell_state)
  have amplitudes: "\<psi> [False, False] = complex_of_real (sqrt 2 / 2)" "\<psi> [False, True] = 0"
    "\<psi> [True, False] = 0" "\<psi> [True, True] = complex_of_real (sqrt 2 / 2)"
    by (simp_all add: \<psi>)
  have "basis_states 2 = [[False, False], [False, True], [True, False], [True, True]]"
    by (simp add: numeral_2_eq_2)
  then have "zz_expectation 2 \<psi> 0 1 = 1"
    by (simp add: zz_expectation_def amplitudes z_sign_def flip: of_real_mult)
  then show ?thesis
    by (simp only: \<psi>_def)
qed

text \<open>
  C3 (as stated: the energy is the constant term \<open>\<Sum> a\<^sub>i\<^sup>2\<close> plus the weighted expectations,
  for every list of numbers). The constant term and the weights are computed in 64-bit
  arithmetic: for the two numbers \<open>3037000500\<close> and no layer the expectation of \<open>Z\<^sub>0 Z\<^sub>1\<close> is
  \<open>0\<close> and the energy is \<open>290948384\<close>, not the sum of the squares \<open>18446744074000500000\<close>.
\<close>

theorem exact_energy_overflow_counterexample:
  "expectation_value [3037000500, 3037000500] [] = Inr 290948384 \<and>
   exact_sum_of_squares [3037000500, 3037000500] = 18446744074000500000"
proof -
  have "expectation_value [3037000500, 3037000500] (replicate 0 0) =
      Inr (real_of_int (sint (constant_term [3037000500, 3037000500])))"
    using zero_parameters_constant [of "[3037000500, 3037000500]" 0] by blast
  moreover have "sint (constant_term [3037000500, 3037000500]) = 290948384"
    by (simp add: constant_term_def)
  moreover have "exact_sum_of_squares [3037000500, 3037000500] = 18446744074000500000"
    by (simp add: exact_sum_of_squares_def)
  ultimately show ?thesis by simp
qed

text \<open>
  C3 (amended). For a non-empty list of 64-bit numbers and every parameter vector, the
  simulation of the ansatz circuit prepares a state of total probability \<open>1\<close>; for \<open>i < j\<close> the
  expectation of \<open>Z\<^sub>i Z\<^sub>j\<close> on it is the probability that the bits \<open>i\<close> and \<open>j\<close> agree minus the
  probability that they differ, a real number between \<open>-1\<close> and \<open>1\<close>; and \<open>expectation_value\<close>
  returns the constant term plus the sum over all pairs \<open>i < j\<close> of the weight times this
  expectation, constant term and weights as the program computes them in 64-bit
  arithmetic. Whenever the sum of the squares is below \<open>2\<^sup>6\<^sup>3\<close>, the constant term is
  \<open>\<Sum> a\<^sub>i\<^sup>2\<close>, the weights are \<open>2 a\<^sub>i a\<^sub>j\<close>, and the energy is the expected value of the cost
  \<open>(\<Sum> a\<^sub>i s\<^sub>i)\<^sup>2\<close> of a measured bit string under the probabilities of the state.
\<close>

theorem exact_energy:
  assumes "numbers \<noteq> []"
  shows "\<exists>c. create_ansatz (length numbers) params = Inr c \<and>
     total_probability (length numbers) (simulate (length numbers) c) = 1 \<and>
     (\<forall>i j. i < j \<and> j < length numbers \<longrightarrow>
        zz_expectation (length numbers) (simulate (length numbers) c) i j =
          (\<Sum>bs | length bs = length numbers.
             (if bs ! i = bs ! j then 1 else - 1) * (cmod (simulate (length numbers) c bs))\<^sup>2) \<and>
        - 1 \<le> zz_expectation (length numbers) (simulate (length numbers) c) i j \<and>
        zz_expectation (length numbers) (simulate (length numbers) c) i j \<le> 1) \<and>
     expectation_value numbers params =
       Inr (real_of_int (sint (constant_term numbers)) +
            (\<Sum>i<length numbers. \<Sum>j = i + 1..<length numbers.
               real_of_int (sint (2 * numbers ! i * numbers ! j)) *
               zz_expectation (length numbers) (simulate (length numbers) c) i j)) \<and>
     ((\<Sum>i<length numbers. (sint (numbers ! i))\<^sup>2) < 2 ^ 63 \<longrightarrow>
        expectation_value numbers params =
          Inr (real_of_int (\<Sum>i<length numbers. (sint (numbers ! i))\<^sup>2) +
               (\<Sum>i<length numbers. \<Sum>j = i + 1..<length numbers.
                  real_of_int (2 * sint (numbers ! i) * sint (numbers ! j)) *
                  zz_expectation (length numbers) (simulate (length numbers) c) i j)) \<and>
        expectation_value numbers params =
          Inr (\<Sum>bs | length bs = length numbers.
                 (cmod (simulate (length numbers) c bs))\<^sup>2 *
                 (\<Sum>i<length numbers.
                    real_of_int (sint (numbers ! i)) * (if bs ! i then - 1 else 1))\<^sup>2))"
proof -
  let ?n = "length numbers"
  from assms have "0 < ?n" by simp
  from create_ansatz_closed_form [OF this, of params] obtain c
    where c: "create_ansatz ?n params = Inr c" by blast
  let ?\<psi> = "simulate ?n c"
  have normal: "total_probability ?n ?\<psi> = 1"
    using ansatz_gates_in_range [OF c] by (rule simulate_normalised)
  with zz_expectation_bounded [of ?n ?\<psi>]
  have bound: "\<bar>zz_expectation ?n ?\<psi> i j\<bar> \<le> 1" for i j
    by simp
  have parity: "\<forall>i j. i < j \<and> j < ?n \<longrightarrow>
        zz_expectation ?n ?\<psi> i j =
          (\<Sum>bs | length bs = ?n. (if bs ! i = bs ! j then 1 else - 1) * (cmod (?\<psi> bs))\<^sup>2) \<and>
        - 1 \<le> zz_expectation ?n ?\<psi> i j \<and> zz_expectation ?n ?\<psi> i j \<le> 1"
    using bound zz_expectation_parity [of ?n ?\<psi>] by (simp add: abs_le_iff minus_le_iff)
  have run: "expectation_value numbers params =
       Inr (real_of_int (sint (constant_term numbers)) +
            (\<Sum>i<?n. \<Sum>j = i + 1..<?n.
               real_of_int (sint (2 * numbers ! i * numbers ! j)) * zz_expectation ?n ?\<psi> i j))"
    by (simp only: expectation_value_def Let_def c sum.case energy_loop sum_qubit_pairs
        constant_term_def)
  have exact: "expectation_value numbers params =
          Inr (real_of_int (\<Sum>i<?n. (sint (numbers ! i))\<^sup>2) +
               (\<Sum>i<?n. \<Sum>j = i + 1..<?n.
                  real_of_int (2 * sint (numbers ! i) * sint (numbers ! j)) *
                  zz_expectation ?n ?\<psi> i j)) \<and>
        expectation_value numbers params =
          Inr (\<Sum>bs | length bs = ?n. (cmod (?\<psi> bs))\<^sup>2 *
                 (\<Sum>i<?n. real_of_int (sint (numbers ! i)) * (if bs ! i then - 1 else 1))\<^sup>2)"
    if small: "(\<Sum>i<?n. (sint (numbers ! i))\<^sup>2) < 2 ^ 63"
  proof -
    from small have sq: "exact_sum_of_squares numbers < 2 ^ 63"
      by (simp only: exact_sum_of_squares_index)
    from sint_nonneg_in_range [OF exact_sum_of_squares_nonneg sq]
    have const: "sint (constant_term numbers) = (\<Sum>i<?n. (sint (numbers ! i))\<^sup>2)"
      by (simp only: constant_term_exact exact_sum_of_squares_index)
    have "(\<Sum>i<?n. \<Sum>j = i + 1..<?n.
               real_of_int (sint (2 * numbers ! i * numbers ! j)) * zz_expectation ?n ?\<psi> i j) =
        (\<Sum>i<?n. \<Sum>j = i + 1..<?n.
               real_of_int (2 * sint (numbers ! i) * sint (numbers ! j)) * zz_expectation ?n ?\<psi> i j)"
      by (intro sum.cong refl) (simp add: weight_exact [OF sq])
    with run const have first: "expectation_value numbers params =
          Inr (real_of_int (\<Sum>i<?n. (sint (numbers ! i))\<^sup>2) +
               (\<Sum>i<?n. \<Sum>j = i + 1..<?n.
                  real_of_int (2 * sint (numbers ! i) * sint (numbers ! j)) *
                  zz_expectation ?n ?\<psi> i j))"
      by (simp only:)
    have "(\<Sum>bs | length bs = ?n. (cmod (?\<psi> bs))\<^sup>2 *
                 (\<Sum>i<?n. real_of_int (sint (numbers ! i)) * (if bs ! i then - 1 else 1))\<^sup>2) =
        (\<Sum>i<?n. (real_of_int (sint (numbers ! i)))\<^sup>2) +
        (\<Sum>i<?n. \<Sum>j = i + 1..<?n.
           (2 * real_of_int (sint (numbers ! i)) * real_of_int (sint (numbers ! j))) *
           zz_expectation ?n ?\<psi> i j)"
      by (rule expected_cost [OF normal])
    also have "\<dots> = real_of_int (\<Sum>i<?n. (sint (numbers ! i))\<^sup>2) +
               (\<Sum>i<?n. \<Sum>j = i + 1..<?n.
                  real_of_int (2 * sint (numbers ! i) * sint (numbers ! j)) *
                  zz_expectation ?n ?\<psi> i j)"
      by simp
    finally show ?thesis using first by (simp only: simp_thms)
  qed
  show ?thesis
    using c normal parity run exact by blast
qed

theorem exact_energy_witness:
  "expectation_value [1, 2] [0, 0, pi / 2, pi / 2, 0, 0] = Inr 9 \<and>
   create_ansatz 2 [0, 0, pi / 2, pi / 2, 0, 0] =
     Inr [H 0, H 1, Rx 0 0, Rx 0 1, ZZPow (1 / 2) 0 1, Rx (pi / 2) 0, Rx 0 1, ZZPow 0 0 1] \<and>
   zz_expectation 2
     (simulate 2 [H 0, H 1, Rx 0 0, Rx 0 1, ZZPow (1 / 2) 0 1, Rx (pi / 2) 0, Rx 0 1, ZZPow 0 0 1])
     0 1 = 1"
proof -
  let ?c = "[H 0, H 1, Rx 0 0, Rx 0 1, ZZPow (1 / 2) 0 1, Rx (pi / 2) 0, Rx 0 1, ZZPow 0 0 1]"
  let ?params = "[0, 0, pi / 2, pi / 2, 0, 0 :: real]"
  have len: "length [1, 2 :: int64] = 2" by simp
  from exact_energy [of "[1, 2]" ?params] obtain c'
    where c': "create_ansatz (length [1, 2 :: int64]) ?params = Inr c'"
      and e: "expectation_value [1, 2] ?params =
         Inr (real_of_int (sint (constant_term [1, 2])) +
            (\<Sum>i<length [1, 2 :: int64]. \<Sum>j = i + 1..<length [1, 2 :: int64].
               real_of_int (sint (2 * [1, 2 :: int64] ! i * [1, 2] ! j)) *
               zz_expectation (length [1, 2 :: int64]) (simulate (length [1, 2 :: int64]) c') i j))"
    by blast
  from c' bell_circuit have "c' = ?c"
    unfolding len by simp
  moreover have "zz_expectation (Suc (Suc 0))
      (simulate (Suc (Suc 0))
        [H 0, H (Suc 0), Rx 0 0, Rx 0 (Suc 0), ZZPow (1 / 2) 0 (Suc 0), Rx (pi / 2) 0,
         Rx 0 (Suc 0), ZZPow 0 0 (Suc 0)]) 0 (Suc 0) = 1"
    using bell_correlation by (simp add: numeral_2_eq_2)
  ultimately have "expectation_value [1, 2] ?params = Inr 9"
    using e by (simp add: constant_term_def lessThan_Suc numeral_2_eq_2)
  with bell_circuit bell_correlation show ?thesis by simp
qed

end
